theory Spec2Isabelle
  imports Complex_Main
begin

section \<open>Python strings\<close>

text \<open>
  A Python \<open>str\<close> is modelled as a \<^typ>\<open>string\<close>: a list of code points, each an
  8-bit \<^typ>\<open>char\<close> read as a code point in the range U+0000..U+00FF. \<open>length\<close> is
  Python's \<open>len\<close>.

  \<open>isspace\<close> is the set of characters that \<open>str.strip()\<close> removes and that \<open>\s\<close> matches
  in a \<open>str\<close> pattern; in the range above these are the code points
  U+0009..U+000D, U+001C..U+001F, U+0020, U+0085 and U+00A0. \<open>\d\<close> matches the decimal digits, in this range
  \<open>0\<close>..\<open>9\<close>.
\<close>

definition isspace :: "char \<Rightarrow> bool" where
  "isspace c = (c \<in> set [CHR 0x09, CHR 0x0A, CHR 0x0B, CHR 0x0C, CHR 0x0D, CHR 0x1C, CHR 0x1D,
                            CHR 0x1E, CHR 0x1F, CHR 0x20, CHR 0x85, CHR 0xA0])"

definition isdigit :: "char \<Rightarrow> bool" where
  "isdigit c = (c \<in> set ''0123456789'')"

text \<open>The character classes \<open>[0-9\-]\<close>, \<open>[A-Z_]\<close>, and \<open>.\<close> with and without
  \<open>re.DOTALL\<close>.\<close>

definition is_digit_or_hyphen :: "char \<Rightarrow> bool" where
  "is_digit_or_hyphen c = (c \<in> set ''0123456789-'')"

definition is_upper_or_underscore :: "char \<Rightarrow> bool" where
  "is_upper_or_underscore c = (c \<in> set ''ABCDEFGHIJKLMNOPQRSTUVWXYZ_'')"

definition any_char :: "char \<Rightarrow> bool" where
  "any_char c = True"

definition not_newline :: "char \<Rightarrow> bool" where
  "not_newline c = (c \<noteq> CHR 0x0A)"

text \<open>\<open>s.startswith(p)\<close>, written with the prefix first.\<close>

fun startswith :: "string \<Rightarrow> string \<Rightarrow> bool" where
  "startswith [] s = True"
| "startswith (p # ps) [] = False"
| "startswith (p # ps) (c # cs) = (p = c \<and> startswith ps cs)"

text \<open>\<open>sub in s\<close> for two strings: \<open>sub\<close> occurs in \<open>s\<close> at some position.\<close>

fun contains :: "string \<Rightarrow> string \<Rightarrow> bool" where
  "contains sub [] = (sub = [])"
| "contains sub (c # cs) = (startswith sub (c # cs) \<or> contains sub cs)"

text \<open>\<open>s.find(sub)\<close>: the position of the first occurrence of \<open>sub\<close> in \<open>s\<close>, with
  \<open>None\<close> for Python's \<open>-1\<close>. The source does not call it; the properties below use
  it to say where a marker first occurs.\<close>

fun str_find :: "string \<Rightarrow> string \<Rightarrow> nat option" where
  "str_find sub [] = (if sub = [] then Some 0 else None)"
| "str_find sub (c # cs) =
     (if startswith sub (c # cs) then Some 0 else map_option Suc (str_find sub cs))"

text \<open>\<open>s.strip()\<close>: leading and trailing whitespace removed.\<close>

definition strip :: "string \<Rightarrow> string" where
  "strip s = rev (dropWhile isspace (rev (dropWhile isspace s)))"

text \<open>\<open>s.split('.')[0]\<close>: the text before the first full stop (all of \<open>s\<close> when it has
  none).\<close>

definition split_dot_first :: "string \<Rightarrow> string" where
  "split_dot_first s = takeWhile (\<lambda>c. c \<noteq> CHR ''.'') s"

text \<open>\<open>s.replace(old, new)\<close>: every occurrence of \<open>old\<close>, found left to right without
  overlap, replaced. The source calls it with a non-empty \<open>old\<close> only; for an empty one
  the model leaves \<open>s\<close> as it is.\<close>

function replace :: "string \<Rightarrow> string \<Rightarrow> string \<Rightarrow> string" where
  "replace old new s =
     (if s = [] then []
      else if old \<noteq> [] \<and> startswith old s then new @ replace old new (drop (length old) s)
      else hd s # replace old new (tl s))"
  by pat_completeness auto
termination
  by (relation "measure (\<lambda>(old, new, s). length s)") auto

declare replace.simps [simp del]

section \<open>The regular expressions of the source\<close>

text \<open>
  The patterns of \<open>parse_llm_result\<close> are built from literal text, a character class
  under a greedy or lazy quantifier, one capturing group, and the two forms
  \<open>(?:\n|$)\<close> and \<open>(?=\n|$)\<close>. A pattern is a list of such items, and \<open>rx_match\<close> is the
  backtracking matcher of Python's \<open>re\<close>: at every item the alternatives are tried in
  the order of their priority (a greedy quantifier the longest repetition first, a lazy
  one the shortest first), and the first alternative under which the rest of the
  pattern matches is taken.
\<close>

datatype rx =
    Lit string
  | Star "char \<Rightarrow> bool"
  | Plus "char \<Rightarrow> bool"
  | LazyStar "char \<Rightarrow> bool"
  | LazyPlus "char \<Rightarrow> bool"
  | Opt char
  | GroupOpen
  | GroupClose
  | NewlineOrEnd
  | AheadNewlineOrEnd

text \<open>The first alternative that succeeds.\<close>

fun first_some :: "('a \<Rightarrow> 'b option) \<Rightarrow> 'a list \<Rightarrow> 'b option" where
  "first_some f [] = None"
| "first_some f (x # xs) = (case f x of Some y \<Rightarrow> Some y | None \<Rightarrow> first_some f xs)"

text \<open>
  \<open>rx_match p s (opened, group)\<close> matches the pattern \<open>p\<close> at the start of \<open>s\<close>. \<open>opened\<close>
  is the input that was left where the group opened, \<open>group\<close> the text the group has
  captured. The result is the input left after the match and the captured group.
  \<open>$\<close> (without \<open>re.MULTILINE\<close>) matches at the end of the string and just before a
  newline that ends the string.
\<close>

fun rx_match :: "rx list \<Rightarrow> string \<Rightarrow> string option \<times> string option
    \<Rightarrow> (string \<times> string option) option" where
  "rx_match [] s st = Some (s, snd st)"
| "rx_match (Lit l # p) s st =
     (if startswith l s then rx_match p (drop (length l) s) st else None)"
| "rx_match (Star c # p) s st =
     first_some (\<lambda>k. rx_match p (drop k s) st) (rev [0 ..< Suc (length (takeWhile c s))])"
| "rx_match (Plus c # p) s st =
     first_some (\<lambda>k. rx_match p (drop k s) st) (rev [1 ..< Suc (length (takeWhile c s))])"
| "rx_match (LazyStar c # p) s st =
     first_some (\<lambda>k. rx_match p (drop k s) st) [0 ..< Suc (length (takeWhile c s))]"
| "rx_match (LazyPlus c # p) s st =
     first_some (\<lambda>k. rx_match p (drop k s) st) [1 ..< Suc (length (takeWhile c s))]"
| "rx_match (Opt c # p) s st =
     first_some (\<lambda>k. rx_match p (drop k s) st) (if startswith [c] s then [1, 0] else [0])"
| "rx_match (GroupOpen # p) s st = rx_match p s (Some s, snd st)"
| "rx_match (GroupClose # p) s st =
     rx_match p s
       (fst st, case fst st of None \<Rightarrow> snd st
                | Some s0 \<Rightarrow> Some (take (length s0 - length s) s0))"
| "rx_match (NewlineOrEnd # p) s st =
     (case (if startswith [CHR 0x0A] s then rx_match p (tl s) st else None) of
        Some r \<Rightarrow> Some r
      | None \<Rightarrow> if s = [] \<or> s = [CHR 0x0A] then rx_match p s st else None)"
| "rx_match (AheadNewlineOrEnd # p) s st =
     (if startswith [CHR 0x0A] s \<or> s = [] then rx_match p s st else None)"

text \<open>\<open>re.search(p, s)\<close>: the match at the leftmost start position that has one;
  \<open>None\<close> when there is none. \<open>rx_group1\<close> is \<open>m.group(1)\<close> of a match.\<close>

definition rx_search :: "rx list \<Rightarrow> string \<Rightarrow> (string \<times> string option) option" where
  "rx_search p s = first_some (\<lambda>i. rx_match p (drop i s) (None, None)) [0 ..< Suc (length s)]"

definition rx_group1 :: "(string \<times> string option) option \<Rightarrow> string option" where
  "rx_group1 m = (case m of None \<Rightarrow> None | Some (rest, g) \<Rightarrow> g)"

text \<open>
  \<open>re.sub(p, repl, s)\<close> for a pattern whose matches are never empty (as the patterns of
  the source are: each starts with a literal or is \<open>\s+\<close>): scanning from the left, a
  match is replaced by \<open>repl\<close> and the scan goes on behind it; where there is no match
  the character is kept.
\<close>

function rx_sub :: "rx list \<Rightarrow> string \<Rightarrow> string \<Rightarrow> string" where
  "rx_sub p repl s =
     (if s = [] then []
      else case rx_match p s (None, None) of
             Some (rest, g) \<Rightarrow>
               if length rest < length s then repl @ rx_sub p repl rest
               else hd s # rx_sub p repl (tl s)
           | None \<Rightarrow> hd s # rx_sub p repl (tl s))"
  by pat_completeness auto
termination
  by (relation "measure (\<lambda>(p, repl, s). length s)") auto

declare rx_sub.simps [simp del]

text \<open>The patterns, in the order of the source (\<open>utils.py\<close>, lines 80 to 139). Three
  of them have the shape \<open>KEYWORD\s*\[(class+)\]\<close>.\<close>

definition bracketed :: "string \<Rightarrow> (char \<Rightarrow> bool) \<Rightarrow> rx list" where
  "bracketed keyword cls =
     [Lit keyword, Star isspace, Lit ''['', GroupOpen, Plus cls, GroupClose, Lit '']'']"

definition ALL_DEFECT_LINES_RE :: "rx list" where
  "ALL_DEFECT_LINES_RE = bracketed ''ALL DEFECT LINES:'' is_digit_or_hyphen"

definition MAIN_DEFECT_LINE_RE :: "rx list" where
  "MAIN_DEFECT_LINE_RE = bracketed ''MAIN DEFECT LINE:'' isdigit"

definition DEFECT_LINE_RE :: "rx list" where
  "DEFECT_LINE_RE = bracketed ''DEFECT LINE:'' isdigit"

definition DEFECT_CATEGORY_RE :: "rx list" where
  "DEFECT_CATEGORY_RE =
     [Lit ''DEFECT CATEGORY:'', Star isspace, Opt CHR ''['',
      GroupOpen, Plus is_upper_or_underscore, GroupClose, Opt CHR '']'']"

definition DESCRIPTION_RE :: "rx list" where
  "DESCRIPTION_RE =
     [Lit ''DESCRIPTION:'', Star isspace,
      GroupOpen, LazyPlus any_char, GroupClose, NewlineOrEnd]"

text \<open>The parts of the last two patterns behind \<open>\s*\<close> and \<open>\s*\[?\<close>, named for the
  facts about them.\<close>

definition category_tail :: "rx list" where
  "category_tail = [GroupOpen, Plus is_upper_or_underscore, GroupClose, Opt CHR '']'']"

definition description_tail :: "rx list" where
  "description_tail = [GroupOpen, LazyPlus any_char, GroupClose, NewlineOrEnd]"

definition marker_line_RE :: "string \<Rightarrow> rx list" where
  "marker_line_RE marker = [Lit marker, LazyStar not_newline, AheadNewlineOrEnd]"

definition WHITESPACE_RE :: "rx list" where
  "WHITESPACE_RE = [Plus isspace]"

section \<open>The response interpreter on the response text\<close>

text \<open>
  \<open>parse_content\<close> is \<open>parse_llm_result\<close> from the line \<open>content = result['message']['content']\<close>
  on (lines 68 to 145), for a \<open>content\<close> that is a \<open>str\<close>. The result is the triple
  \<open>(defect_line, defect_category, description)\<close>. The variable \<open>main_line\<close> of the source
  is assigned and never read, so it has no part in the result.
\<close>

definition truncate_description :: "string \<Rightarrow> string" where
  "truncate_description description =
     (if CHR ''.'' \<in> set description then split_dot_first description @ ''.''
      else if length description > 100 then take 97 description @ ''...''
      else description)"

definition remove_marker_line :: "string \<Rightarrow> string \<Rightarrow> string \<Rightarrow> string" where
  "remove_marker_line marker content description =
     (if contains marker content then rx_sub (marker_line_RE marker) [] description
      else description)"

definition fallback_description :: "string \<Rightarrow> string" where
  "fallback_description content =
     (let description = replace ''RESULT: [NO]'' [] (replace ''RESULT: [YES]'' [] content);
          description = remove_marker_line ''MULTIPLE DEFECTS:'' content description;
          description = remove_marker_line ''ALL DEFECT LINES:'' content description;
          description = remove_marker_line ''MAIN DEFECT LINE:'' content description;
          description = remove_marker_line ''DEFECT LINE:'' content description;
          description = remove_marker_line ''DEFECT CATEGORY:'' content description;
          description = strip (rx_sub WHITESPACE_RE '' '' description)
      in if length description > 100 then take 97 description @ ''...'' else description)"

definition extract_defect_line :: "string \<Rightarrow> string option" where
  "extract_defect_line content =
     (if contains ''MULTIPLE DEFECTS: [YES]'' content
      then rx_group1 (rx_search ALL_DEFECT_LINES_RE content)
      else rx_group1 (rx_search DEFECT_LINE_RE content))"

definition extract_category :: "string \<Rightarrow> string" where
  "extract_category content =
     (case rx_group1 (rx_search DEFECT_CATEGORY_RE content) of
        None \<Rightarrow> ''UNKNOWN''
      | Some c \<Rightarrow> if c = [] then ''UNKNOWN'' else c)"

definition extract_description :: "string \<Rightarrow> string" where
  "extract_description content =
     (let description =
            (case rx_group1 (rx_search DESCRIPTION_RE content) of
               None \<Rightarrow> []
             | Some g \<Rightarrow> truncate_description (strip g))
      in if description = [] then fallback_description content else description)"

definition parse_content :: "string \<Rightarrow> string option \<times> string \<times> string" where
  "parse_content content =
     (if contains ''RESULT: [NO]'' content then (None, ''NONE'', ''No defects found'')
      else (extract_defect_line content, extract_category content,
            extract_description content))"

section \<open>Python values, exceptions and the operators on them\<close>

text \<open>
  \<open>response.json()\<close> returns whatever JSON the endpoint sent, so the \<open>result\<close> that
  \<open>parse_llm_result\<close> receives is modelled as a JSON value: \<open>None\<close>, a \<open>bool\<close>, an
  \<open>int\<close>, a \<open>float\<close>, a \<open>str\<close>, a \<open>list\<close> or a \<open>dict\<close> with string keys (an association
  list, read with \<open>map_of\<close>).
\<close>

datatype json =
    JNull
  | JBool bool
  | JInt int
  | JFloat real
  | JStr string
  | JArr "json list"
  | JObj "(string \<times> json) list"

text \<open>The exceptions of the model, each with its message \<open>str(e)\<close>.
  \<open>RequestException\<close> stands for \<open>requests.exceptions.RequestException\<close> and its
  subclasses; \<open>OtherException\<close> for every other subclass of \<open>Exception\<close>.\<close>

datatype py_exc =
    RequestException string
  | TypeError string
  | KeyError string
  | OtherException string

fun exc_str :: "py_exc \<Rightarrow> string" where
  "exc_str (RequestException m) = m"
| "exc_str (TypeError m) = m"
| "exc_str (KeyError m) = m"
| "exc_str (OtherException m) = m"

text \<open>\<open>key in x\<close> for a string \<open>key\<close>: a key of a dict, an element of a list, a
  substring of a string; a \<open>TypeError\<close> on every other value. The message of that
  \<open>TypeError\<close> is shortened: the interpreter's message names the type of the value as
  well (\<open>argument of type 'NoneType' is not iterable\<close>). No branch of the source reads
  it.\<close>

fun py_in :: "string \<Rightarrow> json \<Rightarrow> py_exc + bool" where
  "py_in key (JObj kvs) = Inr (key \<in> set (map fst kvs))"
| "py_in key (JArr xs) = Inr (JStr key \<in> set xs)"
| "py_in key (JStr s) = Inr (contains key s)"
| "py_in key v = Inl (TypeError ''argument is not iterable'')"

text \<open>\<open>x[key]\<close> for a string \<open>key\<close>: the value of a dict under that key; a
  \<open>TypeError\<close> on every other value.\<close>

fun py_getitem :: "json \<Rightarrow> string \<Rightarrow> py_exc + json" where
  "py_getitem (JObj kvs) key =
     (case map_of kvs key of Some v \<Rightarrow> Inr v | None \<Rightarrow> Inl (KeyError key))"
| "py_getitem (JArr xs) key = Inl (TypeError ''list indices must be integers or slices, not str'')"
| "py_getitem (JStr s) key = Inl (TypeError ''string indices must be integers'')"
| "py_getitem v key = Inl (TypeError ''object is not subscriptable'')"

text \<open>The truth value of a value in a condition.\<close>

fun py_truthy :: "json \<Rightarrow> bool" where
  "py_truthy JNull = False"
| "py_truthy (JBool b) = b"
| "py_truthy (JInt i) = (i \<noteq> 0)"
| "py_truthy (JFloat x) = (x \<noteq> 0)"
| "py_truthy (JStr s) = (s \<noteq> [])"
| "py_truthy (JArr xs) = (xs \<noteq> [])"
| "py_truthy (JObj kvs) = (kvs \<noteq> [])"

text \<open>\<open>str(n)\<close> for an integer, as an f-string formats it.\<close>

definition digit_char :: "nat \<Rightarrow> char" where
  "digit_char d = char_of (48 + d)"

fun str_nat :: "nat \<Rightarrow> string" where
  "str_nat n = (if n < 10 then [digit_char n] else str_nat (n div 10) @ [digit_char (n mod 10)])"

declare str_nat.simps [simp del]

definition str_int :: "int \<Rightarrow> string" where
  "str_int i = (if i < 0 then ''-'' @ str_nat (nat (- i)) else str_nat (nat i))"

section \<open>The response interpreter: \<open>parse_llm_result\<close>\<close>

text \<open>
  The Defect Record \<open>(defect_line, defect_category, description)\<close>. The description is
  a Python value: on the error path it is \<open>result['error']\<close>, whatever that is.
\<close>

type_synonym defect_record = "string option \<times> string \<times> json"

text \<open>
  The rest of the function once \<open>content\<close> is read (lines 70 to 145). On a \<open>str\<close> it is
  \<open>parse_content\<close>. On any other value the test \<open>"RESULT: [NO]" in content\<close> is the
  operator \<open>in\<close> of that value, and when it is false \<open>re.search\<close> raises \<open>TypeError\<close>.
\<close>

fun parse_message_content :: "json \<Rightarrow> py_exc + defect_record" where
  "parse_message_content (JStr content) =
     (case parse_content content of (line, category, description) \<Rightarrow>
        Inr (line, category, JStr description))"
| "parse_message_content content =
     (case py_in ''RESULT: [NO]'' content of
        Inl e \<Rightarrow> Inl e
      | Inr True \<Rightarrow> Inr (None, ''NONE'', JStr ''No defects found'')
      | Inr False \<Rightarrow> Inl (TypeError ''expected string or bytes-like object''))"

text \<open>The condition of line 65,
  \<open>result and 'message' in result and 'content' in result['message']\<close>, evaluated left
  to right with the short cut of \<open>and\<close>.\<close>

definition has_message_content :: "json \<Rightarrow> py_exc + bool" where
  "has_message_content result =
     (if \<not> py_truthy result then Inr False
      else case py_in ''message'' result of
             Inl e \<Rightarrow> Inl e
           | Inr False \<Rightarrow> Inr False
           | Inr True \<Rightarrow>
               (case py_getitem result ''message'' of
                  Inl e \<Rightarrow> Inl e
                | Inr message \<Rightarrow> py_in ''content'' message))"

definition parse_llm_result :: "json \<Rightarrow> py_exc + defect_record" where
  "parse_llm_result result =
     (case py_in ''error'' result of
        Inl e \<Rightarrow> Inl e
      | Inr True \<Rightarrow>
          (case py_getitem result ''error'' of
             Inl e \<Rightarrow> Inl e
           | Inr err \<Rightarrow> Inr (None, ''ERROR'', err))
      | Inr False \<Rightarrow>
          (case has_message_content result of
             Inl e \<Rightarrow> Inl e
           | Inr False \<Rightarrow> Inr (None, ''UNKNOWN'', JStr ''Unknown result format'')
           | Inr True \<Rightarrow>
               (case py_getitem result ''message'' of
                  Inl e \<Rightarrow> Inl e
                | Inr message \<Rightarrow>
                    (case py_getitem message ''content'' of
                       Inl e \<Rightarrow> Inl e
                     | Inr content \<Rightarrow> parse_message_content content))))"

text \<open>
  A well-formed response with the text \<open>content\<close>: a dict without the key \<open>'error'\<close>
  whose \<open>'message'\<close> is a dict that holds the string \<open>content\<close> under \<open>'content'\<close>.
\<close>

definition has_content :: "json \<Rightarrow> string \<Rightarrow> bool" where
  "has_content result content =
     (case result of
        JObj kvs \<Rightarrow>
          ''error'' \<notin> set (map fst kvs) \<and>
          (case map_of kvs ''message'' of
             Some (JObj message) \<Rightarrow> map_of message ''content'' = Some (JStr content)
           | _ \<Rightarrow> False)
      | _ \<Rightarrow> False)"

text \<open>The response of the endpoint's chat interface with the text \<open>content\<close>.\<close>

definition chat_response :: "string \<Rightarrow> json" where
  "chat_response content =
     JObj [(''model'', JStr ''qwen3:14b''),
           (''message'', JObj [(''role'', JStr ''assistant''), (''content'', JStr content)]),
           (''done'', JBool True)]"

section \<open>Configuration\<close>

record config =
  MODEL_NAME :: string
  MAX_TOKENS :: int
  TEMPERATURE :: int
  MODULE_START_INDEX :: int
  MODULE_END_INDEX :: int
  PROJECT_PREFIXES :: "string list"
  FOLDER_NAMES :: "string list"
  BASE_BENCHMARK_PATH :: string

text \<open>The constants of the class \<open>Config\<close> that the run reads (the endpoint's address,
  the headers and the timeout only reach the HTTP library, which is part of the
  environment below).\<close>

definition Config :: config where
  "Config = \<lparr>
     MODEL_NAME = ''qwen3:14b'',
     MAX_TOKENS = 2048,
     TEMPERATURE = 0,
     MODULE_START_INDEX = 1,
     MODULE_END_INDEX = 31,
     PROJECT_PREFIXES = [''simple_'', ''medium_'', ''complex_''],
     FOLDER_NAMES = [''simple'', ''medium'', ''complex''],
     BASE_BENCHMARK_PATH = ''Static-Verilog-Analysis/Benchmark'' \<rparr>"

section \<open>The inference client: \<open>send_llm_request\<close>\<close>

record llm_request =
  model :: string
  system_content :: string
  user_content :: string
  max_tokens :: int
  temperature :: int
  stream :: bool

definition create_llm_request_data :: "config \<Rightarrow> string \<Rightarrow> llm_request" where
  "create_llm_request_data cfg context = \<lparr>
     model = MODEL_NAME cfg,
     system_content =
       ''You are a verilog code defect checker and are able to follow the defined rules.'',
     user_content = context @ '' /no_think'',
     max_tokens = MAX_TOKENS cfg,
     temperature = TEMPERATURE cfg,
     stream = False \<rparr>"

text \<open>
  What \<open>requests.post\<close> does is the environment's: it returns a response, with its
  \<open>status_code\<close> and with what \<open>response.json()\<close> will do (return the parsed body, or
  raise when the body is not JSON), or it raises.
\<close>

datatype http_result =
    Response int "py_exc + json"
  | PostRaised py_exc

definition error_value :: "string \<Rightarrow> json" where
  "error_value message = JObj [(''error'', JStr message)]"

text \<open>The body of the \<open>try\<close> block (lines 40 to 50), then the function with its two
  handlers (lines 51 to 54).\<close>

definition send_llm_request_try :: "http_result \<Rightarrow> py_exc + json" where
  "send_llm_request_try r =
     (case r of
        Response status_code body \<Rightarrow>
          if status_code = 200 then body
          else Inr (error_value (''Request failed with status code: '' @ str_int status_code))
      | PostRaised e \<Rightarrow> Inl e)"

definition send_llm_request_of :: "http_result \<Rightarrow> py_exc + json" where
  "send_llm_request_of r =
     (case send_llm_request_try r of
        Inr v \<Rightarrow> Inr v
      | Inl (RequestException m) \<Rightarrow> Inr (error_value (''Network request failed: '' @ m))
      | Inl e \<Rightarrow> Inr (error_value (''Unexpected error: '' @ exc_str e)))"

text \<open>The message that the handlers give the error value for an exception.\<close>

definition handled_message :: "py_exc \<Rightarrow> string" where
  "handled_message exc =
     (case exc of RequestException m \<Rightarrow> ''Network request failed: '' @ m
      | _ \<Rightarrow> ''Unexpected error: '' @ exc_str exc)"

text \<open>The request succeeded: the status code is 200 and the body is JSON.\<close>

definition request_succeeded :: "http_result \<Rightarrow> bool" where
  "request_succeeded r =
     (case r of Response status_code (Inr v) \<Rightarrow> status_code = 200 | _ \<Rightarrow> False)"

text \<open>The number a decimal numeral stands for, Python's \<open>int(s)\<close>; it reads back what
  \<open>str_int\<close> writes.\<close>

definition digit_value :: "char \<Rightarrow> nat" where
  "digit_value c = of_char c - 48"

definition nat_of_str :: "string \<Rightarrow> nat" where
  "nat_of_str s = foldl (\<lambda>a c. 10 * a + digit_value c) 0 s"

definition int_of_str :: "string \<Rightarrow> int" where
  "int_of_str s = (if startswith ''-'' s then - int (nat_of_str (tl s)) else int (nat_of_str s))"

section \<open>The environment of a run\<close>

text \<open>
  What the run reads from outside: whether a path exists (\<open>os.path.exists\<close>), what
  opening and reading a file gives (its lines, or the exception raised), how the
  endpoint answers a request, and the rules document of the prompt (the f-string of
  \<open>build_analysis_prompt\<close>, lines 61 to 179, with the reserved words filled in; no
  property below depends on its text).
\<close>

record env =
  path_exists :: "string \<Rightarrow> bool"
  read_lines :: "string \<Rightarrow> py_exc + string list"
  post :: "llm_request \<Rightarrow> http_result"
  prompt_rules :: string

definition send_llm_request :: "env \<Rightarrow> string \<Rightarrow> py_exc + json" where
  "send_llm_request e context =
     send_llm_request_of (post e (create_llm_request_data Config context))"

section \<open>The prompt builder\<close>

text \<open>The loop \<open>for i, line in enumerate(verilog_code_lines)\<close>, from index \<open>i\<close> on.\<close>

fun numbered_lines :: "nat \<Rightarrow> string list \<Rightarrow> string" where
  "numbered_lines i [] = []"
| "numbered_lines i (line # rest) =
     str_nat (i + 1) @ '': '' @ line @ numbered_lines (i + 1) rest"

definition build_analysis_prompt :: "env \<Rightarrow> string \<Rightarrow> string list \<Rightarrow> string" where
  "build_analysis_prompt e module_name verilog_code_lines =
     (''The following <code> is the Verilog code for the module named <'' @ module_name @ ''>.'')
     @ [CHR 0x0A] @ numbered_lines 0 verilog_code_lines @ [CHR 0x0A] @ prompt_rules e"

section \<open>Paths and the report file\<close>

text \<open>\<open>os.path.join(a, b)\<close> of two components, on a POSIX system.\<close>

definition path_join :: "string \<Rightarrow> string \<Rightarrow> string" where
  "path_join a b =
     (if startswith ''/'' b then b
      else if a = [] \<or> last a = CHR ''/'' then a @ b
      else a @ ''/'' @ b)"

definition build_verilog_path :: "string \<Rightarrow> string \<Rightarrow> string" where
  "build_verilog_path base_path module_name = path_join base_path (module_name @ ''.v'')"

text \<open>\<open>s.rstrip('_')\<close>.\<close>

definition rstrip_underscore :: "string \<Rightarrow> string" where
  "rstrip_underscore s = rev (dropWhile (\<lambda>c. c = CHR ''_'') (rev s))"

text \<open>
  The report \<open>results.csv\<close>: \<open>None\<close> while the file does not exist, otherwise its rows
  in the order they were written. A data row holds the five values handed to
  \<open>writer.writerow\<close>.
\<close>

datatype csv_row =
    Header "string list"
  | Row string string string string json

type_synonym report = "csv_row list option"

definition fieldnames :: "string list" where
  "fieldnames = [''Level'', ''File_Name'', ''Defect_Line'', ''Defect_Type'', ''Defect_Description'']"

definition write_to_csv ::
  "report \<Rightarrow> string \<Rightarrow> string \<Rightarrow> string option \<Rightarrow> string \<Rightarrow> json \<Rightarrow> report" where
  "write_to_csv csvfile level file_name defect_line defect_type defect_description =
     (let row = Row level file_name
                  (case defect_line of
                     None \<Rightarrow> ''N/A''
                   | Some l \<Rightarrow> if l = [] then ''N/A'' else l)
                  defect_type defect_description
      in case csvfile of
           None \<Rightarrow> Some [Header fieldnames, row]
         | Some rows \<Rightarrow> Some (rows @ [row]))"

section \<open>The batch runner\<close>

text \<open>The body of the \<open>try\<close> block of \<open>analyze_verilog_module\<close> (lines 207 to 215), and
  the function with its handler.\<close>

definition analyze_verilog_module_try :: "env \<Rightarrow> string \<Rightarrow> string \<Rightarrow> py_exc + json" where
  "analyze_verilog_module_try e module_name verilog_path =
     (case read_lines e verilog_path of
        Inl exc \<Rightarrow> Inl exc
      | Inr verilog_code_lines \<Rightarrow>
          send_llm_request e (build_analysis_prompt e module_name verilog_code_lines))"

definition analyze_verilog_module :: "env \<Rightarrow> string \<Rightarrow> string \<Rightarrow> py_exc + json" where
  "analyze_verilog_module e module_name base_path =
     (let verilog_path = build_verilog_path base_path module_name in
      if \<not> path_exists e verilog_path
      then Inr (error_value (''File not found: '' @ verilog_path))
      else case analyze_verilog_module_try e module_name verilog_path of
             Inr result \<Rightarrow> Inr result
           | Inl exc \<Rightarrow> Inr (error_value (''File operation failed: '' @ exc_str exc)))"

text \<open>
  One pass of the loop of \<open>process_module_batch\<close> (lines 240 to 262) for the index \<open>k\<close>:
  the new report, and the exception that left the loop, if any. The timers and the
  console output are left out: they do not touch the report.
\<close>

definition process_module ::
  "env \<Rightarrow> string \<Rightarrow> string \<Rightarrow> int \<Rightarrow> report \<Rightarrow> report \<times> py_exc option" where
  "process_module e module_prefix base_path k csvfile =
     (let level = rstrip_underscore module_prefix;
          module_name = module_prefix @ str_int k;
          file_name = module_name @ ''.v''
      in case analyze_verilog_module e module_name base_path of
           Inl exc \<Rightarrow> (csvfile, Some exc)
         | Inr result \<Rightarrow>
             (case parse_llm_result result of
                Inl exc \<Rightarrow> (csvfile, Some exc)
              | Inr (defect_line, defect_type, defect_description) \<Rightarrow>
                  (write_to_csv csvfile level file_name defect_line defect_type
                     defect_description, None)))"

text \<open>The loop \<open>for k in range(start_idx, end_idx)\<close>, from \<open>k\<close> on.\<close>

function process_module_batch ::
  "env \<Rightarrow> int \<Rightarrow> int \<Rightarrow> string \<Rightarrow> string \<Rightarrow> report \<Rightarrow> report \<times> py_exc option" where
  "process_module_batch e start_idx end_idx module_prefix base_path csvfile =
     (if start_idx < end_idx
      then case process_module e module_prefix base_path start_idx csvfile of
             (csvfile', Some exc) \<Rightarrow> (csvfile', Some exc)
           | (csvfile', None) \<Rightarrow>
               process_module_batch e (start_idx + 1) end_idx module_prefix base_path csvfile'
      else (csvfile, None))"
  by pat_completeness auto
termination
  by (relation "measure (\<lambda>(e, start_idx, end_idx, p, b, c). nat (end_idx - start_idx))") auto

declare process_module_batch.simps [simp del]

text \<open>The loop of \<open>main\<close> over \<open>zip(PROJECT_PREFIXES, FOLDER_NAMES)\<close>.\<close>

fun process_categories ::
  "env \<Rightarrow> config \<Rightarrow> (string \<times> string) list \<Rightarrow> report \<Rightarrow> report \<times> py_exc option" where
  "process_categories e cfg [] csvfile = (csvfile, None)"
| "process_categories e cfg ((prefix, folder) # rest) csvfile =
     (case process_module_batch e (MODULE_START_INDEX cfg) (MODULE_END_INDEX cfg) prefix
             (BASE_BENCHMARK_PATH cfg @ ''/'' @ folder) csvfile of
        (csvfile', Some exc) \<Rightarrow> (csvfile', Some exc)
      | (csvfile', None) \<Rightarrow> process_categories e cfg rest csvfile')"

text \<open>
  A run with the configuration \<open>cfg\<close>, started with the report in the state \<open>csvfile\<close>:
  an existing report is removed first (lines 278 to 281), so the loops start without
  one. \<open>main\<close> is the run with the constants of \<open>Config\<close>.
\<close>

definition run :: "env \<Rightarrow> config \<Rightarrow> report \<Rightarrow> report \<times> py_exc option" where
  "run e cfg csvfile =
     (let csvfile = (if csvfile \<noteq> None then None else csvfile)
      in process_categories e cfg (zip (PROJECT_PREFIXES cfg) (FOLDER_NAMES cfg)) csvfile)"

definition main :: "env \<Rightarrow> report \<Rightarrow> report \<times> py_exc option" where
  "main e csvfile = run e Config csvfile"

section \<open>The rows a run is to write\<close>

text \<open>The file names of the modules of a configuration, in the order in which the run
  processes them: category by category, the index ascending.\<close>

definition batch_file_names :: "int \<Rightarrow> int \<Rightarrow> string \<Rightarrow> string list" where
  "batch_file_names start_idx end_idx module_prefix =
     map (\<lambda>k. module_prefix @ str_int k @ ''.v'') [start_idx .. end_idx - 1]"

definition module_file_names :: "config \<Rightarrow> string list" where
  "module_file_names cfg =
     concat (map (\<lambda>(module_prefix, folder).
                    batch_file_names (MODULE_START_INDEX cfg) (MODULE_END_INDEX cfg) module_prefix)
                 (zip (PROJECT_PREFIXES cfg) (FOLDER_NAMES cfg)))"

fun row_file_name :: "csv_row \<Rightarrow> string option" where
  "row_file_name (Header names) = None"
| "row_file_name (Row level file_name defect_line defect_type description) = Some file_name"

text \<open>The report after the data rows \<open>rows\<close> were appended one by one with
  \<open>write_to_csv\<close>.\<close>

definition appended :: "report \<Rightarrow> csv_row list \<Rightarrow> report" where
  "appended csvfile rows =
     (if rows = [] then csvfile
      else Some ((case csvfile of None \<Rightarrow> [Header fieldnames] | Some old \<Rightarrow> old) @ rows))"

section \<open>What a marker in the text is\<close>

text \<open>
  \<open>marker_at keyword cls s grp\<close>: the text \<open>s\<close> starts with the marker
  \<open>KEYWORD [grp]\<close>: the keyword, whitespace (possibly none), and in brackets the
  non-empty text \<open>grp\<close> of characters of the class \<open>cls\<close>.
\<close>

definition marker_at :: "string \<Rightarrow> (char \<Rightarrow> bool) \<Rightarrow> string \<Rightarrow> string \<Rightarrow> bool" where
  "marker_at keyword cls s grp \<longleftrightarrow>
     (\<exists>ws r. s = keyword @ ws @ ''['' @ grp @ '']'' @ r
        \<and> list_all isspace ws \<and> grp \<noteq> [] \<and> list_all cls grp)"

text \<open>
  The same for the category, whose brackets may be missing.
  \<open>category_token_at s tok\<close>: the text \<open>s\<close> starts with the marker \<open>DEFECT CATEGORY:\<close>,
  followed by whitespace (possibly none), possibly one opening bracket, and then the
  token \<open>tok\<close>: a non-empty run of upper-case letters and underscores, as long as it
  can be.
\<close>

definition category_token_at :: "string \<Rightarrow> string \<Rightarrow> bool" where
  "category_token_at s tok \<longleftrightarrow>
     (\<exists>ws br r. s = ''DEFECT CATEGORY:'' @ ws @ br @ tok @ r
        \<and> list_all isspace ws \<and> (br = [] \<or> br = ''['')
        \<and> tok \<noteq> [] \<and> list_all is_upper_or_underscore tok
        \<and> (r = [] \<or> \<not> is_upper_or_underscore (hd r)))"

section \<open>Example inputs\<close>

text \<open>A response that reports no defect and, against the format, a defect as well.\<close>

definition no_defect_content :: string where
  "no_defect_content =
     ''RESULT: [NO]'' @ [CHR 0x0A] @ ''DEFECT LINE: [12]'' @ [CHR 0x0A] @
     ''DEFECT CATEGORY: [PORT_TYPE]''"

text \<open>The response of the specification's second end-to-end scenario.\<close>

definition single_defect_content :: string where
  "single_defect_content =
     ''RESULT: [YES]'' @ [CHR 0x0A] @ ''DEFECT LINE: [12]'' @ [CHR 0x0A] @
     ''DEFECT CATEGORY: [PORT_TYPE]'' @ [CHR 0x0A] @ ''DESCRIPTION: Output port unassigned.''"

text \<open>A response in the format for several defects.\<close>

definition multiple_defects_content :: string where
  "multiple_defects_content =
     ''RESULT: [YES]'' @ [CHR 0x0A] @ ''MULTIPLE DEFECTS: [YES]'' @ [CHR 0x0A] @
     ''ALL DEFECT LINES: [3-7-12]'' @ [CHR 0x0A] @ ''MAIN DEFECT LINE: [7]'' @ [CHR 0x0A] @
     ''DEFECT CATEGORY: [SIGNAL_USAGE]'' @ [CHR 0x0A] @ ''DESCRIPTION: Signal read before it is set.''"

text \<open>Several defects announced, the list of lines written with commas; a single-defect
  marker follows.\<close>

definition malformed_list_content :: string where
  "malformed_list_content =
     ''RESULT: [YES]'' @ [CHR 0x0A] @ ''MULTIPLE DEFECTS: [YES]'' @ [CHR 0x0A] @
     ''ALL DEFECT LINES: [3, 7]'' @ [CHR 0x0A] @ ''DEFECT LINE: [7]'' @ [CHR 0x0A] @
     ''DEFECT CATEGORY: [SIGNAL_USAGE]''"

text \<open>A category written in lower case, and one in mixed case.\<close>

definition lower_case_category_content :: string where
  "lower_case_category_content =
     ''RESULT: [YES]'' @ [CHR 0x0A] @ ''DEFECT LINE: [5]'' @ [CHR 0x0A] @
     ''DEFECT CATEGORY: [port_type]''"

definition mixed_case_category_content :: string where
  "mixed_case_category_content =
     ''RESULT: [YES]'' @ [CHR 0x0A] @ ''DEFECT LINE: [5]'' @ [CHR 0x0A] @
     ''DEFECT CATEGORY: [Port_Type]''"

text \<open>
  The keyword \<open>DEFECT CATEGORY:\<close> with nothing behind it on its line, before the two
  markers; and a line marker without the space, before the one with it.
\<close>

definition early_keyword_content :: string where
  "early_keyword_content =
     ''DEFECT CATEGORY:'' @ [CHR 0x0A] @ ''DEFECT LINE: [5]'' @ [CHR 0x0A] @
     ''DEFECT CATEGORY: [PORT_TYPE]''"

definition unspaced_line_content :: string where
  "unspaced_line_content =
     ''DEFECT LINE:[3]'' @ [CHR 0x0A] @ ''DEFECT LINE: [5]'' @ [CHR 0x0A] @
     ''DEFECT CATEGORY: [PORT_TYPE]''"

text \<open>Two lists of defect lines; and a list of two lines, the bracket on the next line.\<close>

definition two_lists_content :: string where
  "two_lists_content =
     ''RESULT: [YES]'' @ [CHR 0x0A] @ ''MULTIPLE DEFECTS: [YES]'' @ [CHR 0x0A] @
     ''ALL DEFECT LINES: [1-2-3]'' @ [CHR 0x0A] @ ''ALL DEFECT LINES: [4-5-6]'' @ [CHR 0x0A] @
     ''MAIN DEFECT LINE: [2]''"

definition short_list_content :: string where
  "short_list_content =
     ''MULTIPLE DEFECTS: [YES]'' @ [CHR 0x0A] @ ''ALL DEFECT LINES:'' @ [CHR 0x0A] @ ''[3-7]''"

text \<open>A description of 120 characters that ends in a full stop, and one without it.\<close>

definition long_sentence_content :: string where
  "long_sentence_content = ''DESCRIPTION: '' @ replicate 120 CHR ''x'' @ ''.''"

definition long_description_content :: string where
  "long_description_content = ''DESCRIPTION: '' @ replicate 120 CHR ''x''"

text \<open>
  Environments: every module file exists and has two lines; the endpoint answers
  with the status 201 and a well-formed body; it refuses the connection; it answers 200
  with a message whose content is \<open>null\<close>; no module file exists.
\<close>

definition two_lines :: "string list" where
  "two_lines = [''module m;'' @ [CHR 0x0A], ''endmodule'' @ [CHR 0x0A]]"

definition created_env :: env where
  "created_env = \<lparr>
     path_exists = (\<lambda>p. True),
     read_lines = (\<lambda>p. Inr two_lines),
     post = (\<lambda>r. Response 201 (Inr (chat_response single_defect_content))),
     prompt_rules = [] \<rparr>"

definition refused_env :: env where
  "refused_env = \<lparr>
     path_exists = (\<lambda>p. True),
     read_lines = (\<lambda>p. Inr two_lines),
     post = (\<lambda>r. PostRaised (RequestException ''Connection refused'')),
     prompt_rules = [] \<rparr>"

definition null_content_env :: env where
  "null_content_env = \<lparr>
     path_exists = (\<lambda>p. True),
     read_lines = (\<lambda>p. Inr two_lines),
     post = (\<lambda>r. Response 200
               (Inr (JObj [(''message'',
                            JObj [(''role'', JStr ''assistant''), (''content'', JNull)])]))),
     prompt_rules = [] \<rparr>"

definition no_files_env :: env where
  "no_files_env = \<lparr>
     path_exists = (\<lambda>p. False),
     read_lines = (\<lambda>p. Inl (OtherException ''No such file or directory'')),
     post = (\<lambda>r. Response 200 (Inr (chat_response single_defect_content))),
     prompt_rules = [] \<rparr>"

section \<open>Facts about the string operations\<close>

lemma startswith_append [simp]: "startswith p (p @ t)"
  by (induction p) auto

lemma startswith_iff: "startswith p s \<longleftrightarrow> (\<exists>t. s = p @ t)"
proof (induction p s rule: startswith.induct)
  case (1 s) then show ?case by simp
next
  case (2 p ps) then show ?case by simp
next
  case (3 p ps c cs) then show ?case by auto
qed

lemma startswith_drop: "startswith p s \<Longrightarrow> p @ drop (length p) s = s"
  by (auto simp: startswith_iff)

lemma contains_iff: "contains sub s \<longleftrightarrow> (\<exists>pre post. s = pre @ sub @ post)"
proof (induction s)
  case Nil then show ?case by auto
next
  case (Cons c cs)
  show ?case
  proof
    assume "contains sub (c # cs)"
    then consider "startswith sub (c # cs)" | "contains sub cs" by auto
    then show "\<exists>pre post. c # cs = pre @ sub @ post"
    proof cases
      case 1
      then obtain t where "c # cs = sub @ t" by (auto simp: startswith_iff)
      then have "c # cs = [] @ sub @ t" by simp
      then show ?thesis by blast
    next
      case 2
      then obtain pre post where "cs = pre @ sub @ post" using Cons.IH by auto
      then have "c # cs = (c # pre) @ sub @ post" by simp
      then show ?thesis by blast
    qed
  next
    assume "\<exists>pre post. c # cs = pre @ sub @ post"
    then obtain pre post where eq: "c # cs = pre @ sub @ post" by auto
    show "contains sub (c # cs)"
    proof (cases pre)
      case Nil
      then have "startswith sub (c # cs)" using eq by (auto simp: startswith_iff)
      then show ?thesis by simp
    next
      case (Cons a pre')
      then have "cs = pre' @ sub @ post" using eq by simp
      then have "contains sub cs" using Cons.IH by blast
      then show ?thesis by simp
    qed
  qed
qed

lemma first_some_None_iff: "first_some f xs = None \<longleftrightarrow> (\<forall>x \<in> set xs. f x = None)"
  by (induction xs) (auto split: option.splits)

lemma first_some_append:
  "first_some f (xs @ ys) = (case first_some f xs of Some y \<Rightarrow> Some y | None \<Rightarrow> first_some f ys)"
  by (induction xs) (auto split: option.splits)

lemma first_some_map: "first_some f (map g xs) = first_some (\<lambda>x. f (g x)) xs"
  by (induction xs) (auto split: option.splits)

lemma first_some_greedy:
  assumes "a \<le> n" and "\<And>k. a \<le> k \<Longrightarrow> k < n \<Longrightarrow> f k = None"
  shows "first_some f (rev [a ..< Suc n]) = f n"
proof -
  have "rev [a ..< Suc n] = n # rev [a ..< n]" using assms(1) by simp
  moreover have "first_some f (rev [a ..< n]) = None"
    using assms(2) by (simp add: first_some_None_iff)
  ultimately show ?thesis by (simp split: option.splits)
qed

lemma drop_in_takeWhile:
  assumes "k < length (takeWhile c s)"
  shows "drop k s \<noteq> [] \<and> c (hd (drop k s))"
proof -
  have len: "length (takeWhile c s) \<le> length s" by (rule length_takeWhile_le)
  have "hd (drop k s) = s ! k" using assms len by (simp add: hd_drop_conv_nth)
  also have "\<dots> = takeWhile c s ! k" using assms by (simp add: takeWhile_nth)
  finally have "hd (drop k s) = takeWhile c s ! k" .
  moreover have "takeWhile c s ! k \<in> set (takeWhile c s)" using assms by simp
  ultimately have "c (hd (drop k s))" by (metis set_takeWhileD)
  then show ?thesis using assms len by simp
qed

lemma rx_match_Star_det:
  assumes "\<And>t. t \<noteq> [] \<Longrightarrow> c (hd t) \<Longrightarrow> rx_match p t st = None"
  shows "rx_match (Star c # p) s st = rx_match p (dropWhile c s) st"
proof -
  have "first_some (\<lambda>k. rx_match p (drop k s) st) (rev [0 ..< Suc (length (takeWhile c s))])
        = rx_match p (drop (length (takeWhile c s)) s) st"
  proof (rule first_some_greedy)
    fix k assume "k < length (takeWhile c s)"
    then have "drop k s \<noteq> [] \<and> c (hd (drop k s))" by (rule drop_in_takeWhile)
    then show "rx_match p (drop k s) st = None" using assms by blast
  qed simp
  then show ?thesis by (simp add: dropWhile_eq_drop)
qed

lemma rx_match_Plus_det:
  assumes "\<And>t. t \<noteq> [] \<Longrightarrow> c (hd t) \<Longrightarrow> rx_match p t st = None"
  shows "rx_match (Plus c # p) s st =
          (if takeWhile c s = [] then None else rx_match p (dropWhile c s) st)"
proof (cases "takeWhile c s = []")
  case True
  then show ?thesis by simp
next
  case False
  then have "1 \<le> length (takeWhile c s)" by (simp add: Suc_le_eq)
  then have "first_some (\<lambda>k. rx_match p (drop k s) st) (rev [1 ..< Suc (length (takeWhile c s))])
        = rx_match p (drop (length (takeWhile c s)) s) st"
  proof (rule first_some_greedy)
    fix k assume "k < length (takeWhile c s)"
    then have "drop k s \<noteq> [] \<and> c (hd (drop k s))" by (rule drop_in_takeWhile)
    then show "rx_match p (drop k s) st = None" using assms by blast
  qed
  then show ?thesis using False by (simp add: dropWhile_eq_drop)
qed

lemma startswith_single: "startswith [c] t \<longleftrightarrow> t \<noteq> [] \<and> hd t = c"
  by (cases t) auto

lemma str_find_Some_iff:
  "str_find sub s = Some k \<longleftrightarrow>
     k \<le> length s \<and> startswith sub (drop k s) \<and> (\<forall>j < k. \<not> startswith sub (drop j s))"
proof (induction s arbitrary: k)
  case Nil
  then show ?case by (cases sub) auto
next
  case (Cons c cs)
  show ?case
  proof (cases "startswith sub (c # cs)")
    case True
    then show ?thesis by (cases k) auto
  next
    case False
    show ?thesis
    proof (cases k)
      case 0
      then show ?thesis using False by auto
    next
      case (Suc k')
      have "(\<forall>j < Suc k'. \<not> startswith sub (drop j (c # cs))) \<longleftrightarrow>
            (\<forall>j < k'. \<not> startswith sub (drop j cs))"
      proof
        assume h: "\<forall>j < Suc k'. \<not> startswith sub (drop j (c # cs))"
        show "\<forall>j < k'. \<not> startswith sub (drop j cs)"
        proof (intro allI impI)
          fix j assume "j < k'"
          then have "Suc j < Suc k'" by simp
          then have "\<not> startswith sub (drop (Suc j) (c # cs))" using h by blast
          then show "\<not> startswith sub (drop j cs)" by simp
        qed
      next
        assume h: "\<forall>j < k'. \<not> startswith sub (drop j cs)"
        show "\<forall>j < Suc k'. \<not> startswith sub (drop j (c # cs))"
        proof (intro allI impI)
          fix j assume "j < Suc k'"
          then show "\<not> startswith sub (drop j (c # cs))"
            using h False by (cases j) auto
        qed
      qed
      then show ?thesis using False Suc Cons.IH [of k'] by auto
    qed
  qed
qed

lemma first_some_upt_Some_iff:
  "first_some f [0 ..< n] = Some y \<longleftrightarrow> (\<exists>i < n. f i = Some y \<and> (\<forall>j < i. f j = None))"
proof (induction n arbitrary: y)
  case 0
  then show ?case by simp
next
  case (Suc n)
  show ?case
  proof (cases "first_some f [0 ..< n]")
    case None
    then have allN: "\<forall>j < n. f j = None" by (simp add: first_some_None_iff)
    have "first_some f [0 ..< Suc n] = f n"
      using None by (simp add: first_some_append split: option.splits)
    moreover have "(\<exists>i < Suc n. f i = Some y \<and> (\<forall>j < i. f j = None)) \<longleftrightarrow> f n = Some y"
    proof
      assume "\<exists>i < Suc n. f i = Some y \<and> (\<forall>j < i. f j = None)"
      then obtain i where i: "i < Suc n" "f i = Some y" by blast
      then have "i = n" using allN by (cases "i < n") auto
      then show "f n = Some y" using i by simp
    next
      assume "f n = Some y"
      then show "\<exists>i < Suc n. f i = Some y \<and> (\<forall>j < i. f j = None)" using allN by blast
    qed
    ultimately show ?thesis by simp
  next
    case (Some z)
    then obtain i where i: "i < n" "f i = Some z" "\<forall>j < i. f j = None"
      using Suc.IH [of z] by blast
    have "first_some f [0 ..< Suc n] = Some z"
      using Some by (simp add: first_some_append)
    moreover have "(\<exists>i' < Suc n. f i' = Some y \<and> (\<forall>j < i'. f j = None)) \<longleftrightarrow> y = z"
    proof
      assume "\<exists>i' < Suc n. f i' = Some y \<and> (\<forall>j < i'. f j = None)"
      then obtain i' where i': "i' < Suc n" "f i' = Some y" "\<forall>j < i'. f j = None" by blast
      have "i' = i"
      proof (rule ccontr)
        assume "i' \<noteq> i"
        then consider "i' < i" | "i < i'" by linarith
        then show False using i i' by cases auto
      qed
      then show "y = z" using i i' by simp
    next
      assume "y = z"
      then show "\<exists>i' < Suc n. f i' = Some y \<and> (\<forall>j < i'. f j = None)"
        using i by (metis less_SucI)
    qed
    ultimately show ?thesis by auto
  qed
qed

lemma rx_search_Some_iff:
  "rx_search p s = Some r \<longleftrightarrow>
     (\<exists>i \<le> length s. rx_match p (drop i s) (None, None) = Some r
        \<and> (\<forall>j < i. rx_match p (drop j s) (None, None) = None))"
  unfolding rx_search_def first_some_upt_Some_iff by (auto simp: less_Suc_eq_le)

lemma rx_search_None_iff:
  "rx_search p s = None \<longleftrightarrow> (\<forall>i \<le> length s. rx_match p (drop i s) (None, None) = None)"
  unfolding rx_search_def first_some_None_iff by (auto simp: less_Suc_eq_le)

lemma rx_search_first:
  assumes "rx_match p s (None, None) = Some r"
    and "\<And>j. j < length pre \<Longrightarrow> rx_match p (drop j (pre @ s)) (None, None) = None"
  shows "rx_search p (pre @ s) = Some r"
  unfolding rx_search_Some_iff
  by (rule exI [of _ "length pre"]) (use assms in simp)

section \<open>Facts about the patterns\<close>

lemma not_isspace_bracket: "\<not> isspace CHR ''[''"
  unfolding isspace_def by simp

lemma take_length_takeWhile: "take (length s - length (dropWhile c s)) s = takeWhile c s"
proof -
  have "length s = length (takeWhile c s) + length (dropWhile c s)"
    by (metis length_append takeWhile_dropWhile_id)
  then have "length s - length (dropWhile c s) = length (takeWhile c s)" by simp
  then show ?thesis using takeWhile_eq_take [of c s] by simp
qed

text \<open>The patterns \<open>KEYWORD\s*\[(class+)\]\<close>: no backtracking ever succeeds, since neither
  a whitespace character nor a character of the class is a bracket.\<close>

lemma rx_match_group_tail:
  "rx_match [GroupClose, Lit '']''] t (Some t0, g) =
     (if startswith '']'' t then Some (tl t, Some (take (length t0 - length t) t0)) else None)"
  by (simp add: drop_Suc)

lemma rx_match_in_brackets:
  assumes "\<not> cls CHR '']''"
  shows "rx_match [GroupOpen, Plus cls, GroupClose, Lit '']''] t (None, None) =
     (if takeWhile cls t \<noteq> [] \<and> startswith '']'' (dropWhile cls t)
      then Some (tl (dropWhile cls t), Some (takeWhile cls t)) else None)"
proof -
  have det: "rx_match [GroupClose, Lit '']''] u (Some t, None) = None"
    if "u \<noteq> []" "cls (hd u)" for u
    using that assms unfolding rx_match_group_tail by (auto simp: startswith_single)
  have "rx_match [GroupOpen, Plus cls, GroupClose, Lit '']''] t (None, None)
        = rx_match (Plus cls # [GroupClose, Lit '']'']) t (Some t, None)"
    by simp
  also have "\<dots> = (if takeWhile cls t = [] then None
                    else rx_match [GroupClose, Lit '']''] (dropWhile cls t) (Some t, None))"
    by (rule rx_match_Plus_det) (rule det)
  finally show ?thesis
    unfolding rx_match_group_tail by (simp add: take_length_takeWhile)
qed

lemma rx_match_bracketed:
  assumes "\<not> cls CHR '']''"
  shows "rx_match (bracketed kw cls) s (None, None) =
     (let t = dropWhile isspace (drop (length kw) s) in
      if startswith kw s \<and> startswith ''['' t \<and> takeWhile cls (tl t) \<noteq> []
           \<and> startswith '']'' (dropWhile cls (tl t))
      then Some (tl (dropWhile cls (tl t)), Some (takeWhile cls (tl t))) else None)"
proof -
  let ?inner = "[GroupOpen, Plus cls, GroupClose, Lit '']'']"
  have lit: "rx_match (Lit ''['' # ?inner) u (None, None) =
               (if startswith ''['' u then rx_match ?inner (tl u) (None, None) else None)" for u
    by (simp add: drop_Suc)
  have det: "rx_match (Lit ''['' # ?inner) u (None, None) = None"
    if "u \<noteq> []" "isspace (hd u)" for u
    using that not_isspace_bracket unfolding lit by (auto simp: startswith_single)
  have star: "rx_match (Star isspace # Lit ''['' # ?inner) u (None, None) =
          rx_match (Lit ''['' # ?inner) (dropWhile isspace u) (None, None)" for u
    by (rule rx_match_Star_det) (rule det)
  have "rx_match (bracketed kw cls) s (None, None) =
          (if startswith kw s
           then rx_match (Star isspace # Lit ''['' # ?inner) (drop (length kw) s) (None, None)
           else None)"
    by (simp add: bracketed_def)
  then show ?thesis
    unfolding star lit rx_match_in_brackets [where cls = cls, OF assms] by (simp add: Let_def)
qed

text \<open>What a match of such a pattern says about the text, and back.\<close>

lemma rx_match_bracketed_Some_iff:
  assumes "\<not> cls CHR '']''"
  shows "rx_match (bracketed kw cls) s (None, None) = Some (rest, g) \<longleftrightarrow>
     (\<exists>ws grp. s = kw @ ws @ ''['' @ grp @ '']'' @ rest \<and> list_all isspace ws
        \<and> grp \<noteq> [] \<and> list_all cls grp \<and> g = Some grp)"
proof
  assume m: "rx_match (bracketed kw cls) s (None, None) = Some (rest, g)"
  define t where "t = dropWhile isspace (drop (length kw) s)"
  from m have c: "startswith kw s" "startswith ''['' t" "takeWhile cls (tl t) \<noteq> []"
      "startswith '']'' (dropWhile cls (tl t))"
      "rest = tl (dropWhile cls (tl t))" "g = Some (takeWhile cls (tl t))"
    unfolding rx_match_bracketed [where cls = cls, OF assms] t_def by (auto simp: Let_def split: if_splits)
  have 1: "s = kw @ drop (length kw) s" using c(1) by (simp add: startswith_drop)
  have 2: "drop (length kw) s = takeWhile isspace (drop (length kw) s) @ t"
    by (simp add: t_def)
  have 3: "t = ''['' @ tl t" using c(2) by (cases t) auto
  have 4: "tl t = takeWhile cls (tl t) @ dropWhile cls (tl t)" by simp
  have 5: "dropWhile cls (tl t) = '']'' @ rest"
    using c(4,5) by (cases "dropWhile cls (tl t)") auto
  have "s = kw @ takeWhile isspace (drop (length kw) s) @ ''['' @ takeWhile cls (tl t) @ '']'' @ rest"
    using 1 2 3 4 5 by metis
  moreover have "list_all isspace (takeWhile isspace (drop (length kw) s))"
    by (simp add: list_all_iff) (meson set_takeWhileD)
  moreover have "list_all cls (takeWhile cls (tl t))"
    by (simp add: list_all_iff) (meson set_takeWhileD)
  ultimately show "\<exists>ws grp. s = kw @ ws @ ''['' @ grp @ '']'' @ rest \<and> list_all isspace ws
        \<and> grp \<noteq> [] \<and> list_all cls grp \<and> g = Some grp"
    using c(3,6) by blast
next
  assume "\<exists>ws grp. s = kw @ ws @ ''['' @ grp @ '']'' @ rest \<and> list_all isspace ws
        \<and> grp \<noteq> [] \<and> list_all cls grp \<and> g = Some grp"
  then obtain ws grp where s: "s = kw @ ws @ ''['' @ grp @ '']'' @ rest"
    and ws: "list_all isspace ws" and grp: "grp \<noteq> []" "list_all cls grp" and g: "g = Some grp"
    by blast
  have d1: "dropWhile isspace (ws @ ''['' @ grp @ '']'' @ rest) = ''['' @ grp @ '']'' @ rest"
    using ws not_isspace_bracket by (simp add: dropWhile_append2 list_all_iff)
  have t2: "takeWhile cls (grp @ '']'' @ rest) = grp"
    using grp assms by (simp add: takeWhile_append2 list_all_iff)
  have d2: "dropWhile cls (grp @ '']'' @ rest) = '']'' @ rest"
    using grp assms by (simp add: dropWhile_append2 list_all_iff)
  have d0: "drop (length kw) s = ws @ ''['' @ grp @ '']'' @ rest" by (simp add: s)
  have sw: "startswith kw s" by (simp add: s)
  have tl1: "tl (''['' @ grp @ '']'' @ rest) = grp @ '']'' @ rest" by simp
  have sw1: "startswith ''['' (''['' @ grp @ '']'' @ rest)" by (rule startswith_append)
  have sw2: "startswith '']'' ('']'' @ rest)" by (rule startswith_append)
  have tl2: "tl ('']'' @ rest) = rest" by simp
  show "rx_match (bracketed kw cls) s (None, None) = Some (rest, g)"
    unfolding rx_match_bracketed [where cls = cls, OF assms] Let_def d0 d1 tl1 t2 d2 tl2
    using grp g sw sw1 sw2 by simp
qed

lemma first_some_greedy_hit:
  assumes "a \<le> n" and "f n = Some y"
  shows "first_some f (rev [a ..< Suc n]) = Some y"
  using assms by simp

lemma rx_match_Plus_top:
  assumes "takeWhile c s \<noteq> []" and "rx_match p (dropWhile c s) st = Some r"
  shows "rx_match (Plus c # p) s st = Some r"
proof -
  have "1 \<le> length (takeWhile c s)" using assms(1) by (simp add: Suc_le_eq)
  moreover have "rx_match p (drop (length (takeWhile c s)) s) st = Some r"
    using assms(2) by (simp add: dropWhile_eq_drop)
  ultimately have "first_some (\<lambda>k. rx_match p (drop k s) st)
      (rev [1 ..< Suc (length (takeWhile c s))]) = Some r"
    by (rule first_some_greedy_hit)
  then show ?thesis by simp
qed

lemma rx_match_Plus_empty:
  assumes "takeWhile c s = []"
  shows "rx_match (Plus c # p) s st = None"
  using assms by simp

lemma not_upper_bracket: "\<not> is_upper_or_underscore CHR ''[''"
  unfolding is_upper_or_underscore_def by simp

lemma not_upper_space: "isspace c \<Longrightarrow> \<not> is_upper_or_underscore c"
  unfolding is_upper_or_underscore_def isspace_def by auto

lemma takeWhile_Nil_iff: "takeWhile c s = [] \<longleftrightarrow> (s = [] \<or> \<not> c (hd s))"
  by (cases s) auto

text \<open>The category pattern \<open>DEFECT CATEGORY:\s*\[?([A-Z_]+)\]?\<close>.\<close>

lemma rx_match_category_close:
  "rx_match [GroupClose, Opt CHR '']''] v (Some u, g) =
     Some (if startswith '']'' v then tl v else v, Some (take (length u - length v) u))"
  by (simp add: drop_Suc)

lemma rx_match_category_tail:
  "rx_match category_tail u (None, None) =
     (if takeWhile is_upper_or_underscore u = [] then None
      else Some (let r = dropWhile is_upper_or_underscore u
                 in if startswith '']'' r then tl r else r,
                 Some (takeWhile is_upper_or_underscore u)))"
proof (cases "takeWhile is_upper_or_underscore u = []")
  case True
  then show ?thesis by (simp add: category_tail_def)
next
  case False
  have "rx_match (Plus is_upper_or_underscore # [GroupClose, Opt CHR '']'']) u (Some u, None)
      = Some (let r = dropWhile is_upper_or_underscore u
                 in if startswith '']'' r then tl r else r,
                 Some (takeWhile is_upper_or_underscore u))"
    by (rule rx_match_Plus_top [OF False])
       (simp only: rx_match_category_close take_length_takeWhile Let_def)
  then show ?thesis using False by (simp add: category_tail_def)
qed

lemma rx_match_category_opt:
  "rx_match (Opt CHR ''['' # category_tail) t (None, None) =
     rx_match category_tail (if startswith ''['' t then tl t else t) (None, None)"
proof (cases "startswith ''['' t")
  case False
  then show ?thesis by (simp split: option.splits)
next
  case True
  then have "takeWhile is_upper_or_underscore t = []"
    using not_upper_bracket by (auto simp: startswith_single takeWhile_Nil_iff)
  then have "rx_match category_tail t (None, None) = None"
    by (simp add: rx_match_category_tail)
  then show ?thesis using True by (simp add: drop_Suc split: option.splits)
qed

lemma rx_match_category:
  "rx_match DEFECT_CATEGORY_RE s (None, None) =
     (if startswith ''DEFECT CATEGORY:'' s
      then let t = dropWhile isspace (drop (length ''DEFECT CATEGORY:'') s)
           in rx_match category_tail (if startswith ''['' t then tl t else t) (None, None)
      else None)"
proof -
  have det: "rx_match (Opt CHR ''['' # category_tail) t (None, None) = None"
    if "t \<noteq> []" "isspace (hd t)" for t
  proof -
    have "\<not> startswith ''['' t" using that not_isspace_bracket by (auto simp: startswith_single)
    moreover have "takeWhile is_upper_or_underscore t = []"
      using that not_upper_space by (auto simp: takeWhile_Nil_iff)
    ultimately show ?thesis
      unfolding rx_match_category_opt by (simp add: rx_match_category_tail)
  qed
  have star: "rx_match (Star isspace # Opt CHR ''['' # category_tail) u (None, None) =
          rx_match (Opt CHR ''['' # category_tail) (dropWhile isspace u) (None, None)" for u
    by (rule rx_match_Star_det) (rule det)
  have "DEFECT_CATEGORY_RE = Lit ''DEFECT CATEGORY:'' # Star isspace # Opt CHR ''['' # category_tail"
    by (simp add: DEFECT_CATEGORY_RE_def category_tail_def)
  then have "rx_match DEFECT_CATEGORY_RE s (None, None) =
      rx_match (Lit ''DEFECT CATEGORY:'' # Star isspace # Opt CHR ''['' # category_tail) s (None, None)"
    by (rule arg_cong)
  also have "\<dots> = (if startswith ''DEFECT CATEGORY:'' s
       then rx_match (Star isspace # Opt CHR ''['' # category_tail)
              (drop (length ''DEFECT CATEGORY:'') s) (None, None)
       else None)"
    by (rule rx_match.simps)
  finally show ?thesis unfolding star rx_match_category_opt Let_def .
qed

lemma first_some_lazy:
  assumes "a \<le> k" "k < b" and "\<And>j. a \<le> j \<Longrightarrow> j < k \<Longrightarrow> f j = None" and "f k = Some y"
  shows "first_some f [a ..< b] = Some y"
proof -
  have "[a ..< b] = [a ..< k] @ k # [Suc k ..< b]"
    using assms(1,2) by (metis le_imp_less_Suc less_imp_le_nat upt_add_eq_append upt_conv_Cons le_Suc_ex)
  moreover have "first_some f [a ..< k] = None"
    using assms(3) by (simp add: first_some_None_iff)
  ultimately show ?thesis using assms(4) by (simp add: first_some_append)
qed

text \<open>The description pattern \<open>DESCRIPTION:\s*(.+?)(?:\n|$)\<close> with \<open>re.DOTALL\<close>.\<close>

lemma takeWhile_any_char: "takeWhile any_char t = t"
  by (induction t) (auto simp: any_char_def)

lemma rx_match_description_close:
  "rx_match [GroupClose, NewlineOrEnd] v (Some t, None) =
     (if startswith [CHR 0x0A] v then Some (tl v, Some (take (length t - length v) t))
      else if v = [] then Some ([], Some t) else None)"
  by (cases v) auto

lemma rx_match_description_tail:
  "rx_match description_tail t (None, None) =
     (if t = [] then None
      else Some (tl (dropWhile not_newline (tl t)), Some (hd t # takeWhile not_newline (tl t))))"
proof (cases t)
  case Nil
  then show ?thesis by (simp add: description_tail_def takeWhile_any_char)
next
  case t: (Cons c cs)
  let ?f = "\<lambda>k. rx_match [GroupClose, NewlineOrEnd] (drop k t) (Some t, None)"
  let ?k = "Suc (length (takeWhile not_newline cs))"
  have none: "?f j = None" if j1: "1 \<le> j" and j2: "j < ?k" for j
  proof -
    from j1 j2 obtain j' where j': "j = Suc j'" "j' < length (takeWhile not_newline cs)"
      by (cases j) auto
    from j'(2) have "drop j' cs \<noteq> [] \<and> not_newline (hd (drop j' cs))"
      by (rule drop_in_takeWhile)
    then show ?thesis
      unfolding rx_match_description_close using j' t
      by (auto simp: startswith_single not_newline_def)
  qed
  have dk: "drop ?k t = dropWhile not_newline cs"
    using t by (simp add: dropWhile_eq_drop)
  have tk: "take (length t - length (dropWhile not_newline cs)) t = c # takeWhile not_newline cs"
  proof -
    have "length cs = length (takeWhile not_newline cs) + length (dropWhile not_newline cs)"
      by (metis length_append takeWhile_dropWhile_id)
    then have "length t - length (dropWhile not_newline cs) = ?k" using t by simp
    then show ?thesis using t takeWhile_eq_take [of not_newline cs] by simp
  qed
  have hit: "?f ?k = Some (tl (dropWhile not_newline cs), Some (c # takeWhile not_newline cs))"
  proof (cases "dropWhile not_newline cs")
    case Nil
    then have tw: "takeWhile not_newline cs = cs" by (metis append_Nil2 takeWhile_dropWhile_id)
    have f: "?f ?k = Some ([], Some t)"
      unfolding rx_match_description_close dk Nil by simp
    have "tl (dropWhile not_newline cs) = []" by (simp only: Nil list.sel)
    moreover have "c # takeWhile not_newline cs = t" using tw t by simp
    ultimately show ?thesis using f by (simp only:)
  next
    case (Cons d ds)
    then have "\<not> not_newline d" by (metis hd_dropWhile list.sel(1) list.distinct(1))
    then have "startswith [CHR 0x0A] (dropWhile not_newline cs)"
      using Cons by (simp add: not_newline_def)
    then show ?thesis unfolding rx_match_description_close dk tk by simp
  qed
  have "?k < Suc (length t)" using t by (simp add: length_takeWhile_le le_imp_less_Suc)
  then have "first_some ?f [1 ..< Suc (length t)]
      = Some (tl (dropWhile not_newline cs), Some (c # takeWhile not_newline cs))"
    using none hit by (intro first_some_lazy [where k = ?k]) auto
  moreover have "rx_match description_tail t (None, None) = first_some ?f [1 ..< Suc (length t)]"
    by (simp only: description_tail_def rx_match.simps(6,8) snd_conv takeWhile_any_char)
  ultimately show ?thesis using t by simp
qed

lemma rx_match_description_star:
  "rx_match (Star isspace # description_tail) u (None, None) =
      (if dropWhile isspace u \<noteq> [] then rx_match description_tail (dropWhile isspace u) (None, None)
       else if u \<noteq> [] then Some ([], Some [last u]) else None)"
proof -
  let ?f = "\<lambda>k. rx_match description_tail (drop k u) (None, None)"
  let ?n = "length (takeWhile isspace u)"
  have dn: "drop ?n u = dropWhile isspace u" by (simp add: dropWhile_eq_drop)
  have star: "first_some ?f (rev [0 ..< Suc ?n]) =
      (if dropWhile isspace u \<noteq> [] then rx_match description_tail (dropWhile isspace u) (None, None)
       else if u \<noteq> [] then Some ([], Some [last u]) else None)"
  proof (cases "dropWhile isspace u = []")
    case False
    then obtain r where "?f ?n = Some r"
      unfolding dn by (auto simp: rx_match_description_tail)
    then have "first_some ?f (rev [0 ..< Suc ?n]) = ?f ?n"
      by (simp add: first_some_greedy_hit)
    then show ?thesis using False dn by simp
  next
    case True
    then have all: "takeWhile isspace u = u" by (metis append_Nil2 takeWhile_dropWhile_id)
    show ?thesis
    proof (cases "u = []")
      case True
      then show ?thesis by (simp add: rx_match_description_tail)
    next
      case False
      then obtain m where m: "length u = Suc m" by (cases u) auto
      have top: "?f (Suc m) = None" using m by (simp add: rx_match_description_tail)
      have "drop m u = [last u]"
        using False m by (metis append_butlast_last_id append_eq_conv_conj diff_Suc_1 length_butlast)
      then have nxt: "?f m = Some ([], Some [last u])"
        by (simp add: rx_match_description_tail)
      have "rev [0 ..< Suc (Suc m)] = Suc m # m # rev [0 ..< m]" by simp
      then have "first_some ?f (rev [0 ..< Suc (Suc m)]) = Some ([], Some [last u])"
        using top nxt by simp
      moreover have "?n = Suc m" using all m by (metis (full_types))
      ultimately have "first_some ?f (rev [0 ..< Suc ?n]) = Some ([], Some [last u])"
        by (simp only:)
      then show ?thesis using True False by (simp only: if_False if_True simp_thms)
    qed
  qed
  have "rx_match (Star isspace # description_tail) u (None, None)
       = first_some ?f (rev [0 ..< Suc ?n])"
    by (rule rx_match.simps)
  then show ?thesis unfolding star .
qed

lemma rx_match_description:
  "rx_match DESCRIPTION_RE s (None, None) =
     (if startswith ''DESCRIPTION:'' s
      then let u = drop (length ''DESCRIPTION:'') s; t = dropWhile isspace u
           in if t \<noteq> [] then rx_match description_tail t (None, None)
              else if u \<noteq> [] then Some ([], Some [last u])
              else None
      else None)"
proof -
  have "DESCRIPTION_RE = Lit ''DESCRIPTION:'' # Star isspace # description_tail"
    by (simp add: DESCRIPTION_RE_def description_tail_def)
  then have "rx_match DESCRIPTION_RE s (None, None) =
      rx_match (Lit ''DESCRIPTION:'' # Star isspace # description_tail) s (None, None)"
    by (rule arg_cong)
  also have "\<dots> = (if startswith ''DESCRIPTION:'' s
       then rx_match (Star isspace # description_tail) (drop (length ''DESCRIPTION:'') s) (None, None)
       else None)"
    by (rule rx_match.simps)
  finally show ?thesis unfolding rx_match_description_star Let_def .
qed

section \<open>Facts about \<open>parse_llm_result\<close>\<close>

lemma has_content_chat_response: "has_content (chat_response content) content"
  by (simp add: has_content_def chat_response_def)

lemma map_of_Some_in_keys: "map_of kvs k = Some v \<Longrightarrow> k \<in> set (map fst kvs)"
  by (metis map_of_eq_None_iff option.distinct(1) set_map)

lemma parse_llm_result_has_content:
  assumes "has_content result content"
  shows "parse_llm_result result =
          (case parse_content content of (line, category, description) \<Rightarrow>
             Inr (line, category, JStr description))"
proof -
  from assms obtain kvs where r: "result = JObj kvs"
    by (cases result) (auto simp: has_content_def)
  from assms r have ne: "''error'' \<notin> set (map fst kvs)"
    by (simp add: has_content_def)
  from assms r obtain v where v: "map_of kvs ''message'' = Some v"
    by (cases "map_of kvs ''message''") (auto simp: has_content_def)
  from assms r v obtain message where "v = JObj message"
    by (cases v) (auto simp: has_content_def)
  with v have m: "map_of kvs ''message'' = Some (JObj message)" by simp
  from assms r m have c: "map_of message ''content'' = Some (JStr content)"
    by (simp add: has_content_def)
  have km: "''message'' \<in> set (map fst kvs)" using m by (rule map_of_Some_in_keys)
  have kc: "''content'' \<in> set (map fst message)" using c by (rule map_of_Some_in_keys)
  have "kvs \<noteq> []" using km by auto
  then have "has_message_content result = Inr True"
    using r m km kc by (simp add: has_message_content_def)
  then show ?thesis using r ne m c by (simp add: parse_llm_result_def)
qed

section \<open>Facts about the searches\<close>

lemma not_isdigit_close: "\<not> isdigit CHR '']''"
  unfolding isdigit_def by simp

lemma not_digit_or_hyphen_close: "\<not> is_digit_or_hyphen CHR '']''"
  unfolding is_digit_or_hyphen_def by simp

lemma isdigit_imp_digit_or_hyphen: "isdigit c \<Longrightarrow> is_digit_or_hyphen c"
  unfolding isdigit_def is_digit_or_hyphen_def by auto

lemma isspace_space: "isspace CHR '' ''"
  unfolding isspace_def by simp

lemma rx_match_bracketed_no_keyword:
  assumes "\<not> startswith kw s"
  shows "rx_match (bracketed kw cls) s st = None"
  using assms by (simp add: bracketed_def)

text \<open>Where the keyword first occurs, and a well-formed marker stands there, the search
  returns that marker's group.\<close>

lemma rx_search_bracketed_first:
  assumes cls: "\<not> cls CHR '']''"
    and content: "content = pre @ kw @ ws @ ''['' @ grp @ '']'' @ suf"
    and ws: "list_all isspace ws" and grp: "grp \<noteq> []" "list_all cls grp"
    and first: "str_find kw content = Some (length pre)"
  shows "rx_search (bracketed kw cls) content = Some (suf, Some grp)"
proof -
  have "rx_match (bracketed kw cls) (kw @ ws @ ''['' @ grp @ '']'' @ suf) (None, None)
          = Some (suf, Some grp)"
    unfolding rx_match_bracketed_Some_iff [where cls = cls, OF cls] using ws grp by blast
  moreover have "rx_match (bracketed kw cls) (drop j (pre @ kw @ ws @ ''['' @ grp @ '']'' @ suf))
      (None, None) = None" if "j < length pre" for j
  proof -
    have "\<not> startswith kw (drop j content)"
      using first that unfolding str_find_Some_iff by blast
    then show ?thesis unfolding content by (rule rx_match_bracketed_no_keyword)
  qed
  ultimately show ?thesis unfolding content by (rule rx_search_first)
qed

text \<open>Without a text of the pattern's form anywhere, the search finds nothing.\<close>

lemma rx_search_bracketed_None:
  assumes cls: "\<not> cls CHR '']''"
    and none: "\<not> (\<exists>pre ws grp suf. content = pre @ kw @ ws @ ''['' @ grp @ '']'' @ suf
            \<and> list_all isspace ws \<and> grp \<noteq> [] \<and> list_all cls grp)"
  shows "rx_search (bracketed kw cls) content = None"
proof (rule ccontr)
  assume "rx_search (bracketed kw cls) content \<noteq> None"
  then obtain rest g where "rx_search (bracketed kw cls) content = Some (rest, g)" by auto
  then obtain i where "rx_match (bracketed kw cls) (drop i content) (None, None) = Some (rest, g)"
    unfolding rx_search_Some_iff by blast
  then obtain ws grp where d: "drop i content = kw @ ws @ ''['' @ grp @ '']'' @ rest"
    and p: "list_all isspace ws" "grp \<noteq> []" "list_all cls grp"
    unfolding rx_match_bracketed_Some_iff [where cls = cls, OF cls] by blast
  have "content = take i content @ drop i content" by simp
  then have "content = take i content @ kw @ ws @ ''['' @ grp @ '']'' @ rest"
    unfolding d .
  then show False using none p by blast
qed

lemma not_upper_close: "\<not> is_upper_or_underscore CHR '']''"
  unfolding is_upper_or_underscore_def by simp

lemma takeWhile_token:
  assumes "list_all c tok" and "r = [] \<or> \<not> c (hd r)"
  shows "takeWhile c (tok @ r) = tok" and "dropWhile c (tok @ r) = r"
proof -
  have r: "takeWhile c r = []" "dropWhile c r = r"
    using assms(2) by (cases r; simp)+
  show "takeWhile c (tok @ r) = tok"
    using assms(1) r by (simp add: takeWhile_append2 list_all_iff)
  show "dropWhile c (tok @ r) = r"
    using assms(1) r by (simp add: dropWhile_append2 list_all_iff)
qed

lemma rx_match_category_no_keyword:
  assumes "\<not> startswith ''DEFECT CATEGORY:'' s"
  shows "rx_match DEFECT_CATEGORY_RE s (None, None) = None"
  using assms unfolding rx_match_category by (simp only: if_False)

lemma rx_match_category_token:
  assumes "category_token_at s tok"
  shows "rx_group1 (rx_match DEFECT_CATEGORY_RE s (None, None)) = Some tok"
proof -
  from assms obtain ws br r where s: "s = ''DEFECT CATEGORY:'' @ ws @ br @ tok @ r"
    and ws: "list_all isspace ws" and br: "br = [] \<or> br = ''[''"
    and tok: "tok \<noteq> []" "list_all is_upper_or_underscore tok"
    and r: "r = [] \<or> \<not> is_upper_or_underscore (hd r)"
    unfolding category_token_at_def by blast
  have sw: "startswith ''DEFECT CATEGORY:'' s" unfolding s by (rule startswith_append)
  have d0: "drop (length ''DEFECT CATEGORY:'') s = ws @ br @ tok @ r" unfolding s by simp
  have hd_tok: "is_upper_or_underscore (hd tok)" using tok by (cases tok) auto
  have "br @ tok @ r \<noteq> [] \<and> \<not> isspace (hd (br @ tok @ r))"
    using br tok hd_tok not_upper_space not_isspace_bracket by (cases tok) auto
  then have d1: "dropWhile isspace (ws @ br @ tok @ r) = br @ tok @ r"
    using ws by (cases "br @ tok @ r") (auto simp: dropWhile_append2 list_all_iff)
  have u: "(if startswith ''['' (br @ tok @ r) then tl (br @ tok @ r) else br @ tok @ r) = tok @ r"
    using br tok hd_tok not_upper_bracket by (cases tok) (auto simp: startswith_single)
  have t1: "takeWhile is_upper_or_underscore (tok @ r) = tok"
    using tok(2) r by (rule takeWhile_token)
  show ?thesis
    unfolding rx_match_category Let_def d0 d1 u rx_match_category_tail t1
    using sw tok(1) by (simp add: rx_group1_def)
qed

lemma rx_match_category_Some:
  assumes "rx_match DEFECT_CATEGORY_RE s (None, None) = Some (rest, g)"
  shows "\<exists>tok. g = Some tok \<and> category_token_at s tok"
proof -
  define t where "t = dropWhile isspace (drop (length ''DEFECT CATEGORY:'') s)"
  define u where "u = (if startswith ''['' t then tl t else t)"
  from assms have sw: "startswith ''DEFECT CATEGORY:'' s"
    unfolding rx_match_category by (simp split: if_splits)
  with assms have m: "rx_match category_tail u (None, None) = Some (rest, g)"
    unfolding rx_match_category Let_def u_def t_def by (simp only: if_True)
  then have tw: "takeWhile is_upper_or_underscore u \<noteq> []"
    and g: "g = Some (takeWhile is_upper_or_underscore u)"
    unfolding rx_match_category_tail by (auto split: if_splits)
  have 1: "s = ''DEFECT CATEGORY:'' @ drop (length ''DEFECT CATEGORY:'') s"
    using sw by (simp only: startswith_drop)
  have 2: "drop (length ''DEFECT CATEGORY:'') s
            = takeWhile isspace (drop (length ''DEFECT CATEGORY:'') s) @ t"
    unfolding t_def by simp
  obtain br where br: "br = [] \<or> br = ''[''" and 3: "t = br @ u"
  proof (cases "startswith ''['' t")
    case True
    then have "t = ''['' @ u" unfolding u_def by (cases t) auto
    then show ?thesis using that by blast
  next
    case False
    then have "t = [] @ u" unfolding u_def by simp
    then show ?thesis using that by blast
  qed
  have 4: "u = takeWhile is_upper_or_underscore u @ dropWhile is_upper_or_underscore u" by simp
  have r: "dropWhile is_upper_or_underscore u = []
            \<or> \<not> is_upper_or_underscore (hd (dropWhile is_upper_or_underscore u))"
    by (metis hd_dropWhile)
  have "s = ''DEFECT CATEGORY:'' @ takeWhile isspace (drop (length ''DEFECT CATEGORY:'') s)
          @ br @ takeWhile is_upper_or_underscore u @ dropWhile is_upper_or_underscore u"
    using 1 2 3 4 by metis
  moreover have "list_all isspace (takeWhile isspace (drop (length ''DEFECT CATEGORY:'') s))"
    by (simp add: list_all_iff) (meson set_takeWhileD)
  moreover have "list_all is_upper_or_underscore (takeWhile is_upper_or_underscore u)"
    by (simp add: list_all_iff) (meson set_takeWhileD)
  ultimately have "category_token_at s (takeWhile is_upper_or_underscore u)"
    unfolding category_token_at_def using br tw r by blast
  then show ?thesis using g by blast
qed

lemma category_token_at_startswith:
  "category_token_at s tok \<Longrightarrow> startswith ''DEFECT CATEGORY:'' s"
  unfolding category_token_at_def by (auto simp: startswith_iff)

lemma extract_category_first:
  assumes tok: "category_token_at (drop i content) tok"
    and first: "\<forall>j < i. \<forall>tok'. \<not> category_token_at (drop j content) tok'"
  shows "extract_category content = tok"
proof -
  have ne: "tok \<noteq> []" using tok unfolding category_token_at_def by blast
  have "drop i content \<noteq> []" using tok unfolding category_token_at_def by auto
  then have i: "i \<le> length content" by simp
  have "rx_group1 (rx_match DEFECT_CATEGORY_RE (drop i content) (None, None)) = Some tok"
    using tok by (rule rx_match_category_token)
  then obtain rest where hit:
    "rx_match DEFECT_CATEGORY_RE (drop i content) (None, None) = Some (rest, Some tok)"
    by (auto simp: rx_group1_def split: option.splits)
  have miss: "rx_match DEFECT_CATEGORY_RE (drop j content) (None, None) = None" if "j < i" for j
  proof (rule ccontr)
    assume "rx_match DEFECT_CATEGORY_RE (drop j content) (None, None) \<noteq> None"
    then obtain r g where "rx_match DEFECT_CATEGORY_RE (drop j content) (None, None) = Some (r, g)"
      by auto
    then obtain tok' where "category_token_at (drop j content) tok'"
      using rx_match_category_Some by blast
    then show False using first that by blast
  qed
  have "rx_search DEFECT_CATEGORY_RE content = Some (rest, Some tok)"
    unfolding rx_search_Some_iff using i hit miss by blast
  then show ?thesis using ne by (simp add: extract_category_def rx_group1_def)
qed

lemma extract_category_none:
  assumes "\<forall>i tok. \<not> category_token_at (drop i content) tok"
  shows "extract_category content = ''UNKNOWN''"
proof -
  have "rx_match DEFECT_CATEGORY_RE (drop i content) (None, None) = None" for i
  proof (rule ccontr)
    assume "rx_match DEFECT_CATEGORY_RE (drop i content) (None, None) \<noteq> None"
    then obtain r g where "rx_match DEFECT_CATEGORY_RE (drop i content) (None, None) = Some (r, g)"
      by auto
    then obtain tok where "category_token_at (drop i content) tok"
      using rx_match_category_Some by blast
    then show False using assms by blast
  qed
  then have "rx_search DEFECT_CATEGORY_RE content = None"
    unfolding rx_search_None_iff by blast
  then show ?thesis by (simp add: extract_category_def rx_group1_def)
qed

lemma rx_search_bracketed_None_iff:
  assumes cls: "\<not> cls CHR '']''"
  shows "rx_search (bracketed kw cls) content = None \<longleftrightarrow>
     \<not> (\<exists>pre ws grp suf. content = pre @ kw @ ws @ ''['' @ grp @ '']'' @ suf
            \<and> list_all isspace ws \<and> grp \<noteq> [] \<and> list_all cls grp)"
proof
  assume none: "rx_search (bracketed kw cls) content = None"
  show "\<not> (\<exists>pre ws grp suf. content = pre @ kw @ ws @ ''['' @ grp @ '']'' @ suf
            \<and> list_all isspace ws \<and> grp \<noteq> [] \<and> list_all cls grp)"
  proof
    assume "\<exists>pre ws grp suf. content = pre @ kw @ ws @ ''['' @ grp @ '']'' @ suf
            \<and> list_all isspace ws \<and> grp \<noteq> [] \<and> list_all cls grp"
    then obtain pre ws grp suf where c: "content = pre @ kw @ ws @ ''['' @ grp @ '']'' @ suf"
      and p: "list_all isspace ws" "grp \<noteq> []" "list_all cls grp" by blast
    have "rx_match (bracketed kw cls) (kw @ ws @ ''['' @ grp @ '']'' @ suf) (None, None)
          = Some (suf, Some grp)"
      unfolding rx_match_bracketed_Some_iff [where cls = cls, OF cls] using p by blast
    moreover have "drop (length pre) content = kw @ ws @ ''['' @ grp @ '']'' @ suf"
      unfolding c by simp
    moreover have "length pre \<le> length content" unfolding c by simp
    ultimately show False using none unfolding rx_search_None_iff by (metis option.distinct(1))
  qed
next
  assume "\<not> (\<exists>pre ws grp suf. content = pre @ kw @ ws @ ''['' @ grp @ '']'' @ suf
            \<and> list_all isspace ws \<and> grp \<noteq> [] \<and> list_all cls grp)"
  with cls show "rx_search (bracketed kw cls) content = None" by (rule rx_search_bracketed_None)
qed

lemma rx_search_category_None_iff:
  "rx_search DEFECT_CATEGORY_RE content = None \<longleftrightarrow>
     (\<forall>i tok. \<not> category_token_at (drop i content) tok)"
proof
  assume none: "rx_search DEFECT_CATEGORY_RE content = None"
  show "\<forall>i tok. \<not> category_token_at (drop i content) tok"
  proof (intro allI notI)
    fix i tok assume t: "category_token_at (drop i content) tok"
    then have "drop i content \<noteq> []" unfolding category_token_at_def by auto
    then have "i \<le> length content" by simp
    then have "rx_match DEFECT_CATEGORY_RE (drop i content) (None, None) = None"
      using none unfolding rx_search_None_iff by blast
    then show False using rx_match_category_token [OF t] by (simp add: rx_group1_def)
  qed
next
  assume a: "\<forall>i tok. \<not> category_token_at (drop i content) tok"
  show "rx_search DEFECT_CATEGORY_RE content = None"
    unfolding rx_search_None_iff
  proof (intro allI impI, rule ccontr)
    fix i assume "rx_match DEFECT_CATEGORY_RE (drop i content) (None, None) \<noteq> None"
    then obtain r g where "rx_match DEFECT_CATEGORY_RE (drop i content) (None, None) = Some (r, g)"
      by auto
    then obtain tok where "category_token_at (drop i content) tok"
      using rx_match_category_Some by blast
    then show False using a by blast
  qed
qed

lemma marker_at_startswith: "marker_at kw cls s grp \<Longrightarrow> startswith kw s"
  unfolding marker_at_def by (auto simp: startswith_iff)

lemma rx_match_bracketed_marker_at:
  assumes "\<not> cls CHR '']''"
  shows "rx_group1 (rx_match (bracketed kw cls) s (None, None)) = Some grp \<longleftrightarrow>
           marker_at kw cls s grp"
proof
  assume "rx_group1 (rx_match (bracketed kw cls) s (None, None)) = Some grp"
  then obtain rest where "rx_match (bracketed kw cls) s (None, None) = Some (rest, Some grp)"
    by (auto simp: rx_group1_def split: option.splits)
  then show "marker_at kw cls s grp"
    unfolding rx_match_bracketed_Some_iff [where cls = cls, OF assms] marker_at_def by blast
next
  assume "marker_at kw cls s grp"
  then obtain ws r where "s = kw @ ws @ ''['' @ grp @ '']'' @ r" "list_all isspace ws"
    "grp \<noteq> []" "list_all cls grp"
    unfolding marker_at_def by blast
  then have "rx_match (bracketed kw cls) s (None, None) = Some (r, Some grp)"
    unfolding rx_match_bracketed_Some_iff [where cls = cls, OF assms] by blast
  then show "rx_group1 (rx_match (bracketed kw cls) s (None, None)) = Some grp"
    by (simp add: rx_group1_def)
qed

lemma rx_match_bracketed_None_iff:
  assumes "\<not> cls CHR '']''"
  shows "rx_match (bracketed kw cls) s (None, None) = None \<longleftrightarrow> (\<forall>grp. \<not> marker_at kw cls s grp)"
proof
  assume "rx_match (bracketed kw cls) s (None, None) = None"
  then show "\<forall>grp. \<not> marker_at kw cls s grp"
    using rx_match_bracketed_marker_at [where cls = cls, OF assms, of kw s]
    by (simp add: rx_group1_def)
next
  assume a: "\<forall>grp. \<not> marker_at kw cls s grp"
  show "rx_match (bracketed kw cls) s (None, None) = None"
  proof (rule ccontr)
    assume "rx_match (bracketed kw cls) s (None, None) \<noteq> None"
    then obtain rest g where m: "rx_match (bracketed kw cls) s (None, None) = Some (rest, g)"
      by auto
    then obtain grp where "g = Some grp"
      unfolding rx_match_bracketed_Some_iff [where cls = cls, OF assms] by blast
    then have "rx_group1 (rx_match (bracketed kw cls) s (None, None)) = Some grp"
      using m by (simp add: rx_group1_def)
    then show False
      using a rx_match_bracketed_marker_at [where cls = cls, OF assms] by blast
  qed
qed

text \<open>The search returns the group of the first marker in the text.\<close>

lemma rx_search_bracketed_first_marker:
  assumes cls: "\<not> cls CHR '']''"
    and here: "marker_at kw cls (drop i content) grp"
    and first: "\<forall>j < i. \<forall>g. \<not> marker_at kw cls (drop j content) g"
  shows "rx_group1 (rx_search (bracketed kw cls) content) = Some grp"
proof -
  have "drop i content \<noteq> []" using here unfolding marker_at_def by auto
  then have i: "i \<le> length content" by simp
  have "rx_group1 (rx_match (bracketed kw cls) (drop i content) (None, None)) = Some grp"
    using here rx_match_bracketed_marker_at [where cls = cls, OF cls] by blast
  then obtain rest where hit:
    "rx_match (bracketed kw cls) (drop i content) (None, None) = Some (rest, Some grp)"
    by (auto simp: rx_group1_def split: option.splits)
  have miss: "rx_match (bracketed kw cls) (drop j content) (None, None) = None" if "j < i" for j
    using first that rx_match_bracketed_None_iff [where cls = cls, OF cls] by blast
  have "rx_search (bracketed kw cls) content = Some (rest, Some grp)"
    unfolding rx_search_Some_iff using i hit miss by blast
  then show ?thesis by (simp add: rx_group1_def)
qed

lemma marker_at_one_space:
  assumes "grp \<noteq> []" "list_all cls grp"
  shows "marker_at kw cls (drop (length pre) (pre @ (kw @ '' ['') @ grp @ '']'' @ suf)) grp"
  unfolding marker_at_def using assms isspace_space
  by (intro exI [of _ "'' ''"] exI [of _ suf]) simp

lemma marker_at_here:
  assumes "list_all isspace ws" "grp \<noteq> []" "list_all cls grp"
  shows "marker_at kw cls (drop (length pre) (pre @ kw @ ws @ ''['' @ grp @ '']'' @ suf)) grp"
  unfolding marker_at_def using assms
  by (intro exI [of _ ws] exI [of _ suf]) simp

lemma no_marker_before_first_keyword:
  assumes "str_find kw content = Some k"
  shows "\<forall>j < k. \<forall>g. \<not> marker_at kw cls (drop j content) g"
  using assms marker_at_startswith unfolding str_find_Some_iff by blast

lemma no_category_token_before_first_keyword:
  assumes "str_find ''DEFECT CATEGORY:'' content = Some k"
  shows "\<forall>j < k. \<forall>tok. \<not> category_token_at (drop j content) tok"
  using assms category_token_at_startswith unfolding str_find_Some_iff by blast

section \<open>The no-defect marker\<close>

text \<open>
  C9. For every well-formed response whose content contains the literal marker
  \<open>RESULT: [NO]\<close>, the interpreter returns the triple \<open>(None, "NONE", "No defects found")\<close>.
  Nothing else is asked of the content, so the check comes before every extraction of a
  defect marker: the example holds a defect line and a category next to the marker.
\<close>

theorem no_defect_marker_first:
  assumes "has_content result content" and "contains ''RESULT: [NO]'' content"
  shows "parse_llm_result result = Inr (None, ''NONE'', JStr ''No defects found'')"
  using assms by (simp add: parse_llm_result_has_content parse_content_def)

theorem no_defect_marker_first_witness:
  "has_content (chat_response no_defect_content) no_defect_content \<and>
   contains ''RESULT: [NO]'' no_defect_content \<and>
   contains ''DEFECT LINE: [12]'' no_defect_content \<and>
   parse_llm_result (chat_response no_defect_content) =
     Inr (None, ''NONE'', JStr ''No defects found'')"
proof -
  have h1: "has_content (chat_response no_defect_content) no_defect_content"
    by (rule has_content_chat_response)
  have h2: "contains ''RESULT: [NO]'' no_defect_content" by code_simp
  have h3: "contains ''DEFECT LINE: [12]'' no_defect_content" by code_simp
  show ?thesis using h1 h2 h3 no_defect_marker_first [OF h1 h2] by simp
qed

section \<open>The defect line of a single defect, and its category\<close>

text \<open>
  C3, as amended. For every response content that contains a marker \<open>DEFECT LINE: [n]\<close>,
  with \<open>n\<close> a non-empty digit string, before which no text of the form \<open>DEFECT LINE:\<close>,
  whitespace (possibly none), \<open>[\<close>, digits, \<open>]\<close> starts, and a marker
  \<open>DEFECT CATEGORY: [cat]\<close>, with \<open>cat\<close> a non-empty string of upper-case letters and
  underscores, before which there is no place where \<open>DEFECT CATEGORY:\<close> is followed, after
  whitespace (possibly none, line breaks included) and possibly one \<open>[\<close>, by an upper-case
  letter or an underscore, and that contains neither the no-defect nor the
  multiple-defects marker, \<open>parse_llm_result\<close> returns the defect line \<open>n\<close> and the
  category \<open>cat\<close>.
\<close>

theorem single_defect_line_and_category:
  assumes "has_content result content"
    and "\<not> contains ''RESULT: [NO]'' content"
    and "\<not> contains ''MULTIPLE DEFECTS: [YES]'' content"
    and "content = pre @ ''DEFECT LINE: ['' @ n @ '']'' @ suf"
    and "n \<noteq> []" and "list_all isdigit n"
    and "\<forall>j < length pre. \<forall>g. \<not> marker_at ''DEFECT LINE:'' isdigit (drop j content) g"
    and "content = pre' @ ''DEFECT CATEGORY: ['' @ cat @ '']'' @ suf'"
    and "cat \<noteq> []" and "list_all is_upper_or_underscore cat"
    and "\<forall>j < length pre'. \<forall>tok. \<not> category_token_at (drop j content) tok"
  shows "\<exists>description. parse_llm_result result = Inr (Some n, cat, description)"
proof -
  have "marker_at ''DEFECT LINE:'' isdigit
          (drop (length pre) (pre @ (''DEFECT LINE:'' @ '' ['') @ n @ '']'' @ suf)) n"
    using assms(5,6) by (rule marker_at_one_space)
  then have "marker_at ''DEFECT LINE:'' isdigit (drop (length pre) content) n"
    unfolding assms(4) by simp
  with not_isdigit_close
  have "rx_group1 (rx_search (bracketed ''DEFECT LINE:'' isdigit) content) = Some n"
    using assms(7) by (rule rx_search_bracketed_first_marker)
  then have line: "extract_defect_line content = Some n"
    using assms(3) by (simp add: extract_defect_line_def DEFECT_LINE_RE_def)
  have ws: "list_all isspace '' ''" using isspace_space by simp
  have "drop (length pre') content = ''DEFECT CATEGORY:'' @ '' '' @ ''['' @ cat @ ('']'' @ suf')"
    unfolding assms(8) by simp
  then have "category_token_at (drop (length pre') content) cat"
    unfolding category_token_at_def using ws assms(9,10) not_upper_close
    by (intro exI [of _ "'' ''"] exI [of _ "''[''"] exI [of _ "'']'' @ suf'"]) simp
  then have "extract_category content = cat" using assms(11) by (rule extract_category_first)
  then show ?thesis
    unfolding parse_llm_result_has_content [OF assms(1)] parse_content_def
    using assms(2) line by simp
qed

theorem single_defect_line_and_category_witness:
  "has_content (chat_response single_defect_content) single_defect_content
   \<and> \<not> contains ''RESULT: [NO]'' single_defect_content
   \<and> \<not> contains ''MULTIPLE DEFECTS: [YES]'' single_defect_content
   \<and> single_defect_content =
       (''RESULT: [YES]'' @ [CHR 0x0A]) @ ''DEFECT LINE: ['' @ ''12'' @ '']'' @
       ([CHR 0x0A] @ ''DEFECT CATEGORY: [PORT_TYPE]'' @ [CHR 0x0A] @
        ''DESCRIPTION: Output port unassigned.'')
   \<and> list_all isdigit ''12''
   \<and> \<not> (\<exists>j < length (''RESULT: [YES]'' @ [CHR 0x0A]). \<exists>g.
           marker_at ''DEFECT LINE:'' isdigit (drop j single_defect_content) g)
   \<and> single_defect_content =
       (''RESULT: [YES]'' @ [CHR 0x0A] @ ''DEFECT LINE: [12]'' @ [CHR 0x0A]) @
       ''DEFECT CATEGORY: ['' @ ''PORT_TYPE'' @ '']'' @
       ([CHR 0x0A] @ ''DESCRIPTION: Output port unassigned.'')
   \<and> list_all is_upper_or_underscore ''PORT_TYPE''
   \<and> \<not> (\<exists>j < length (''RESULT: [YES]'' @ [CHR 0x0A] @ ''DEFECT LINE: [12]'' @ [CHR 0x0A]).
          \<exists>tok. category_token_at (drop j single_defect_content) tok)
   \<and> (\<exists>description. parse_llm_result (chat_response single_defect_content) =
         Inr (Some ''12'', ''PORT_TYPE'', description))"
proof -
  let ?c = single_defect_content
  let ?p1 = "''RESULT: [YES]'' @ [CHR 0x0A]"
  let ?p2 = "''RESULT: [YES]'' @ [CHR 0x0A] @ ''DEFECT LINE: [12]'' @ [CHR 0x0A]"
  have h1: "has_content (chat_response ?c) ?c" by (rule has_content_chat_response)
  have h2: "\<not> contains ''RESULT: [NO]'' ?c" by code_simp
  have h3: "\<not> contains ''MULTIPLE DEFECTS: [YES]'' ?c" by code_simp
  have h4: "?c = ?p1 @ ''DEFECT LINE: ['' @ ''12'' @ '']'' @
       ([CHR 0x0A] @ ''DEFECT CATEGORY: [PORT_TYPE]'' @ [CHR 0x0A] @
        ''DESCRIPTION: Output port unassigned.'')"
    by (simp add: single_defect_content_def)
  have h5: "''12'' \<noteq> []" by simp
  have h6: "list_all isdigit ''12''" by code_simp
  have "str_find ''DEFECT LINE:'' ?c = Some (length ?p1)" by code_simp
  then have h7: "\<forall>j < length ?p1. \<forall>g. \<not> marker_at ''DEFECT LINE:'' isdigit (drop j ?c) g"
    by (rule no_marker_before_first_keyword)
  have h8: "?c = ?p2 @ ''DEFECT CATEGORY: ['' @ ''PORT_TYPE'' @ '']'' @
       ([CHR 0x0A] @ ''DESCRIPTION: Output port unassigned.'')"
    by (simp add: single_defect_content_def)
  have h9: "''PORT_TYPE'' \<noteq> []" by simp
  have h10: "list_all is_upper_or_underscore ''PORT_TYPE''" by code_simp
  have "str_find ''DEFECT CATEGORY:'' ?c = Some (length ?p2)" by code_simp
  then have h11: "\<forall>j < length ?p2. \<forall>tok. \<not> category_token_at (drop j ?c) tok"
    by (rule no_category_token_before_first_keyword)
  note r = single_defect_line_and_category [OF h1 h2 h3 h4 h5 h6 h7 h8 h9 h10 h11]
  have h7': "\<not> (\<exists>j < length ?p1. \<exists>g. marker_at ''DEFECT LINE:'' isdigit (drop j ?c) g)"
    using h7 by blast
  have h11': "\<not> (\<exists>j < length ?p2. \<exists>tok. category_token_at (drop j ?c) tok)"
    using h11 by blast
  show ?thesis
    by (intro conjI) (rule h1 h2 h3 h4 h6 h7' h8 h10 h11' r)+
qed

text \<open>
  The claim as it was stated asks nothing of \<open>cat\<close>, and nothing of the text before the
  markers. With the category in lower case all it asks holds, and the category returned
  is \<open>UNKNOWN\<close>. With the keyword \<open>DEFECT CATEGORY:\<close> alone on a line before the markers,
  the category returned is \<open>DEFECT\<close>, read from the next line. With \<open>DEFECT LINE:[3]\<close>
  before the only marker \<open>DEFECT LINE: [5]\<close>, the defect line returned is \<open>3\<close>.
\<close>

theorem single_defect_markers_not_returned:
  "has_content (chat_response lower_case_category_content) lower_case_category_content
   \<and> \<not> contains ''RESULT: [NO]'' lower_case_category_content
   \<and> \<not> contains ''MULTIPLE DEFECTS: [YES]'' lower_case_category_content
   \<and> lower_case_category_content =
       (''RESULT: [YES]'' @ [CHR 0x0A]) @ ''DEFECT LINE: ['' @ ''5'' @ '']'' @
       ([CHR 0x0A] @ ''DEFECT CATEGORY: [port_type]'')
   \<and> str_find ''DEFECT LINE:'' lower_case_category_content =
       Some (length (''RESULT: [YES]'' @ [CHR 0x0A]))
   \<and> lower_case_category_content =
       (''RESULT: [YES]'' @ [CHR 0x0A] @ ''DEFECT LINE: [5]'' @ [CHR 0x0A]) @
       ''DEFECT CATEGORY: ['' @ ''port_type'' @ '']'' @ []
   \<and> str_find ''DEFECT CATEGORY:'' lower_case_category_content =
       Some (length (''RESULT: [YES]'' @ [CHR 0x0A] @ ''DEFECT LINE: [5]'' @ [CHR 0x0A]))
   \<and> parse_llm_result (chat_response lower_case_category_content) =
       Inr (Some ''5'', ''UNKNOWN'', JStr [])
   \<and> \<not> (\<exists>description. parse_llm_result (chat_response lower_case_category_content) =
            Inr (Some ''5'', ''port_type'', description))
   \<and> has_content (chat_response early_keyword_content) early_keyword_content
   \<and> \<not> contains ''RESULT: [NO]'' early_keyword_content
   \<and> \<not> contains ''MULTIPLE DEFECTS: [YES]'' early_keyword_content
   \<and> early_keyword_content =
       (''DEFECT CATEGORY:'' @ [CHR 0x0A]) @ ''DEFECT LINE: ['' @ ''5'' @ '']'' @
       ([CHR 0x0A] @ ''DEFECT CATEGORY: [PORT_TYPE]'')
   \<and> str_find ''DEFECT LINE:'' early_keyword_content =
       Some (length (''DEFECT CATEGORY:'' @ [CHR 0x0A]))
   \<and> early_keyword_content =
       (''DEFECT CATEGORY:'' @ [CHR 0x0A] @ ''DEFECT LINE: [5]'' @ [CHR 0x0A]) @
       ''DEFECT CATEGORY: ['' @ ''PORT_TYPE'' @ '']'' @ []
   \<and> list_all is_upper_or_underscore ''PORT_TYPE''
   \<and> parse_llm_result (chat_response early_keyword_content) =
       Inr (Some ''5'', ''DEFECT'', JStr [])
   \<and> \<not> (\<exists>description. parse_llm_result (chat_response early_keyword_content) =
            Inr (Some ''5'', ''PORT_TYPE'', description))
   \<and> has_content (chat_response unspaced_line_content) unspaced_line_content
   \<and> \<not> contains ''RESULT: [NO]'' unspaced_line_content
   \<and> \<not> contains ''MULTIPLE DEFECTS: [YES]'' unspaced_line_content
   \<and> unspaced_line_content =
       (''DEFECT LINE:[3]'' @ [CHR 0x0A]) @ ''DEFECT LINE: ['' @ ''5'' @ '']'' @
       ([CHR 0x0A] @ ''DEFECT CATEGORY: [PORT_TYPE]'')
   \<and> \<not> contains ''DEFECT LINE: ['' (''DEFECT LINE:[3]'' @ [CHR 0x0A])
   \<and> unspaced_line_content =
       (''DEFECT LINE:[3]'' @ [CHR 0x0A] @ ''DEFECT LINE: [5]'' @ [CHR 0x0A]) @
       ''DEFECT CATEGORY: ['' @ ''PORT_TYPE'' @ '']'' @ []
   \<and> str_find ''DEFECT CATEGORY:'' unspaced_line_content =
       Some (length (''DEFECT LINE:[3]'' @ [CHR 0x0A] @ ''DEFECT LINE: [5]'' @ [CHR 0x0A]))
   \<and> parse_llm_result (chat_response unspaced_line_content) =
       Inr (Some ''3'', ''PORT_TYPE'', JStr [])
   \<and> \<not> (\<exists>description. parse_llm_result (chat_response unspaced_line_content) =
            Inr (Some ''5'', ''PORT_TYPE'', description))"
proof -
  let ?c = lower_case_category_content
  have h1: "has_content (chat_response ?c) ?c" by (rule has_content_chat_response)
  have h2: "\<not> contains ''RESULT: [NO]'' ?c" by code_simp
  have h3: "\<not> contains ''MULTIPLE DEFECTS: [YES]'' ?c" by code_simp
  have h4: "?c = (''RESULT: [YES]'' @ [CHR 0x0A]) @ ''DEFECT LINE: ['' @ ''5'' @ '']'' @
       ([CHR 0x0A] @ ''DEFECT CATEGORY: [port_type]'')"
    by (simp add: lower_case_category_content_def)
  have h5: "str_find ''DEFECT LINE:'' ?c = Some (length (''RESULT: [YES]'' @ [CHR 0x0A]))"
    by code_simp
  have h6: "?c = (''RESULT: [YES]'' @ [CHR 0x0A] @ ''DEFECT LINE: [5]'' @ [CHR 0x0A]) @
       ''DEFECT CATEGORY: ['' @ ''port_type'' @ '']'' @ []"
    by (simp add: lower_case_category_content_def)
  have h7: "str_find ''DEFECT CATEGORY:'' ?c =
       Some (length (''RESULT: [YES]'' @ [CHR 0x0A] @ ''DEFECT LINE: [5]'' @ [CHR 0x0A]))"
    by code_simp
  have h8: "parse_llm_result (chat_response ?c) = Inr (Some ''5'', ''UNKNOWN'', JStr [])"
    by code_simp
  have h9: "\<not> (\<exists>description. parse_llm_result (chat_response ?c) =
            Inr (Some ''5'', ''port_type'', description))"
    unfolding h8 by simp
  let ?e = early_keyword_content
  have g1: "has_content (chat_response ?e) ?e" by (rule has_content_chat_response)
  have g2: "\<not> contains ''RESULT: [NO]'' ?e" by code_simp
  have g3: "\<not> contains ''MULTIPLE DEFECTS: [YES]'' ?e" by code_simp
  have g4: "?e = (''DEFECT CATEGORY:'' @ [CHR 0x0A]) @ ''DEFECT LINE: ['' @ ''5'' @ '']'' @
       ([CHR 0x0A] @ ''DEFECT CATEGORY: [PORT_TYPE]'')"
    by (simp add: early_keyword_content_def)
  have g5: "str_find ''DEFECT LINE:'' ?e = Some (length (''DEFECT CATEGORY:'' @ [CHR 0x0A]))"
    by code_simp
  have g6: "?e = (''DEFECT CATEGORY:'' @ [CHR 0x0A] @ ''DEFECT LINE: [5]'' @ [CHR 0x0A]) @
       ''DEFECT CATEGORY: ['' @ ''PORT_TYPE'' @ '']'' @ []"
    by (simp add: early_keyword_content_def)
  have g7: "list_all is_upper_or_underscore ''PORT_TYPE''" by code_simp
  have g8: "parse_llm_result (chat_response ?e) = Inr (Some ''5'', ''DEFECT'', JStr [])"
    by code_simp
  have g9: "\<not> (\<exists>description. parse_llm_result (chat_response ?e) =
            Inr (Some ''5'', ''PORT_TYPE'', description))"
    unfolding g8 by simp
  let ?u = unspaced_line_content
  have u1: "has_content (chat_response ?u) ?u" by (rule has_content_chat_response)
  have u2: "\<not> contains ''RESULT: [NO]'' ?u" by code_simp
  have u3: "\<not> contains ''MULTIPLE DEFECTS: [YES]'' ?u" by code_simp
  have u4: "?u = (''DEFECT LINE:[3]'' @ [CHR 0x0A]) @ ''DEFECT LINE: ['' @ ''5'' @ '']'' @
       ([CHR 0x0A] @ ''DEFECT CATEGORY: [PORT_TYPE]'')"
    by (simp add: unspaced_line_content_def)
  have u5: "\<not> contains ''DEFECT LINE: ['' (''DEFECT LINE:[3]'' @ [CHR 0x0A])" by code_simp
  have u6: "?u = (''DEFECT LINE:[3]'' @ [CHR 0x0A] @ ''DEFECT LINE: [5]'' @ [CHR 0x0A]) @
       ''DEFECT CATEGORY: ['' @ ''PORT_TYPE'' @ '']'' @ []"
    by (simp add: unspaced_line_content_def)
  have u7: "str_find ''DEFECT CATEGORY:'' ?u =
       Some (length (''DEFECT LINE:[3]'' @ [CHR 0x0A] @ ''DEFECT LINE: [5]'' @ [CHR 0x0A]))"
    by code_simp
  have u8: "parse_llm_result (chat_response ?u) = Inr (Some ''3'', ''PORT_TYPE'', JStr [])"
    by code_simp
  have u9: "\<not> (\<exists>description. parse_llm_result (chat_response ?u) =
            Inr (Some ''5'', ''PORT_TYPE'', description))"
    unfolding u8 by simp
  show ?thesis
    by (intro conjI)
       (rule h1 h2 h3 h4 h5 h6 h7 h8 h9 g1 g2 g3 g4 g5 g6 g7 g8 g9 u1 u2 u3 u4 u5 u6 u7 u8 u9)+
qed

section \<open>The defect lines of several defects\<close>

text \<open>
  C4, as amended. For every response content that contains \<open>MULTIPLE DEFECTS: [YES]\<close> and
  a marker \<open>ALL DEFECT LINES: [list]\<close>: the keyword, whitespace (possibly none), and in
  brackets a non-empty text \<open>list\<close> of digits and hyphens, such as \<open>a-b-c\<close> or \<open>a-b\<close>; before
  which no text of that form starts; and that does not contain the no-defect marker,
  \<open>parse_llm_result\<close> returns as defect line the text \<open>list\<close> as it stands, not the main
  defect line.
\<close>

theorem all_defect_lines_verbatim:
  assumes "has_content result content"
    and "\<not> contains ''RESULT: [NO]'' content"
    and "contains ''MULTIPLE DEFECTS: [YES]'' content"
    and "content = pre @ ''ALL DEFECT LINES:'' @ ws @ ''['' @ ls @ '']'' @ suf"
    and "list_all isspace ws" and "ls \<noteq> []" and "list_all is_digit_or_hyphen ls"
    and "\<forall>j < length pre. \<forall>g.
           \<not> marker_at ''ALL DEFECT LINES:'' is_digit_or_hyphen (drop j content) g"
  shows "\<exists>category description.
           parse_llm_result result = Inr (Some ls, category, description)"
proof -
  have "marker_at ''ALL DEFECT LINES:'' is_digit_or_hyphen
          (drop (length pre) (pre @ ''ALL DEFECT LINES:'' @ ws @ ''['' @ ls @ '']'' @ suf)) ls"
    using assms(5-7) by (rule marker_at_here)
  then have "marker_at ''ALL DEFECT LINES:'' is_digit_or_hyphen (drop (length pre) content) ls"
    unfolding assms(4) .
  with not_digit_or_hyphen_close
  have "rx_group1 (rx_search (bracketed ''ALL DEFECT LINES:'' is_digit_or_hyphen) content)
          = Some ls"
    using assms(8) by (rule rx_search_bracketed_first_marker)
  then have "extract_defect_line content = Some ls"
    using assms(3) by (simp add: extract_defect_line_def ALL_DEFECT_LINES_RE_def)
  then show ?thesis
    unfolding parse_llm_result_has_content [OF assms(1)] parse_content_def using assms(2) by simp
qed

theorem all_defect_lines_verbatim_witness:
  "has_content (chat_response multiple_defects_content) multiple_defects_content
   \<and> \<not> contains ''RESULT: [NO]'' multiple_defects_content
   \<and> contains ''MULTIPLE DEFECTS: [YES]'' multiple_defects_content
   \<and> multiple_defects_content =
       (''RESULT: [YES]'' @ [CHR 0x0A] @ ''MULTIPLE DEFECTS: [YES]'' @ [CHR 0x0A]) @
       ''ALL DEFECT LINES:'' @ '' '' @ ''['' @ ''3-7-12'' @ '']'' @
       ([CHR 0x0A] @ ''MAIN DEFECT LINE: [7]'' @ [CHR 0x0A] @
        ''DEFECT CATEGORY: [SIGNAL_USAGE]'' @ [CHR 0x0A] @
        ''DESCRIPTION: Signal read before it is set.'')
   \<and> list_all isspace '' '' \<and> list_all is_digit_or_hyphen ''3-7-12''
   \<and> \<not> (\<exists>j < length (''RESULT: [YES]'' @ [CHR 0x0A] @ ''MULTIPLE DEFECTS: [YES]'' @ [CHR 0x0A]).
          \<exists>g. marker_at ''ALL DEFECT LINES:'' is_digit_or_hyphen
                 (drop j multiple_defects_content) g)
   \<and> (\<exists>category description. parse_llm_result (chat_response multiple_defects_content) =
         Inr (Some ''3-7-12'', category, description))
   \<and> has_content (chat_response short_list_content) short_list_content
   \<and> \<not> contains ''RESULT: [NO]'' short_list_content
   \<and> contains ''MULTIPLE DEFECTS: [YES]'' short_list_content
   \<and> short_list_content =
       (''MULTIPLE DEFECTS: [YES]'' @ [CHR 0x0A]) @
       ''ALL DEFECT LINES:'' @ [CHR 0x0A] @ ''['' @ ''3-7'' @ '']'' @ []
   \<and> list_all isspace [CHR 0x0A] \<and> list_all is_digit_or_hyphen ''3-7''
   \<and> \<not> (\<exists>j < length (''MULTIPLE DEFECTS: [YES]'' @ [CHR 0x0A]).
          \<exists>g. marker_at ''ALL DEFECT LINES:'' is_digit_or_hyphen (drop j short_list_content) g)
   \<and> (\<exists>category description. parse_llm_result (chat_response short_list_content) =
         Inr (Some ''3-7'', category, description))"
proof -
  let ?c = multiple_defects_content
  let ?p = "''RESULT: [YES]'' @ [CHR 0x0A] @ ''MULTIPLE DEFECTS: [YES]'' @ [CHR 0x0A]"
  have h1: "has_content (chat_response ?c) ?c" by (rule has_content_chat_response)
  have h2: "\<not> contains ''RESULT: [NO]'' ?c" by code_simp
  have h3: "contains ''MULTIPLE DEFECTS: [YES]'' ?c" by code_simp
  have h4: "?c = ?p @ ''ALL DEFECT LINES:'' @ '' '' @ ''['' @ ''3-7-12'' @ '']'' @
       ([CHR 0x0A] @ ''MAIN DEFECT LINE: [7]'' @ [CHR 0x0A] @
        ''DEFECT CATEGORY: [SIGNAL_USAGE]'' @ [CHR 0x0A] @
        ''DESCRIPTION: Signal read before it is set.'')"
    by (simp add: multiple_defects_content_def)
  have h5: "list_all isspace '' ''" by code_simp
  have h6: "''3-7-12'' \<noteq> []" by simp
  have h7: "list_all is_digit_or_hyphen ''3-7-12''" by code_simp
  have "str_find ''ALL DEFECT LINES:'' ?c = Some (length ?p)" by code_simp
  then have h8: "\<forall>j < length ?p. \<forall>g.
      \<not> marker_at ''ALL DEFECT LINES:'' is_digit_or_hyphen (drop j ?c) g"
    by (rule no_marker_before_first_keyword)
  note r = all_defect_lines_verbatim [OF h1 h2 h3 h4 h5 h6 h7 h8]
  have h8': "\<not> (\<exists>j < length ?p. \<exists>g.
      marker_at ''ALL DEFECT LINES:'' is_digit_or_hyphen (drop j ?c) g)"
    using h8 by blast
  let ?s = short_list_content
  let ?q = "''MULTIPLE DEFECTS: [YES]'' @ [CHR 0x0A]"
  have g1: "has_content (chat_response ?s) ?s" by (rule has_content_chat_response)
  have g2: "\<not> contains ''RESULT: [NO]'' ?s" by code_simp
  have g3: "contains ''MULTIPLE DEFECTS: [YES]'' ?s" by code_simp
  have g4: "?s = ?q @ ''ALL DEFECT LINES:'' @ [CHR 0x0A] @ ''['' @ ''3-7'' @ '']'' @ []"
    by (simp add: short_list_content_def)
  have g5: "list_all isspace [CHR 0x0A]" by code_simp
  have g6: "''3-7'' \<noteq> []" by simp
  have g7: "list_all is_digit_or_hyphen ''3-7''" by code_simp
  have "str_find ''ALL DEFECT LINES:'' ?s = Some (length ?q)" by code_simp
  then have g8: "\<forall>j < length ?q. \<forall>g.
      \<not> marker_at ''ALL DEFECT LINES:'' is_digit_or_hyphen (drop j ?s) g"
    by (rule no_marker_before_first_keyword)
  note r2 = all_defect_lines_verbatim [OF g1 g2 g3 g4 g5 g6 g7 g8]
  have g8': "\<not> (\<exists>j < length ?q. \<exists>g.
      marker_at ''ALL DEFECT LINES:'' is_digit_or_hyphen (drop j ?s) g)"
    using g8 by blast
  show ?thesis
    by (intro conjI) (rule h1 h2 h3 h4 h5 h7 h8' r g1 g2 g3 g4 g5 g7 g8' r2)+
qed

text \<open>
  The claim as it was stated asks nothing of the text before the marker. With the two
  markers \<open>ALL DEFECT LINES: [1-2-3]\<close> and \<open>ALL DEFECT LINES: [4-5-6]\<close> in the content, all
  it asks holds of the second, and the defect line returned is the list of the first.
\<close>

theorem two_lists_first_returned:
  "has_content (chat_response two_lists_content) two_lists_content
   \<and> \<not> contains ''RESULT: [NO]'' two_lists_content
   \<and> contains ''MULTIPLE DEFECTS: [YES]'' two_lists_content
   \<and> two_lists_content =
       (''RESULT: [YES]'' @ [CHR 0x0A] @ ''MULTIPLE DEFECTS: [YES]'' @ [CHR 0x0A] @
        ''ALL DEFECT LINES: [1-2-3]'' @ [CHR 0x0A]) @
       ''ALL DEFECT LINES: ['' @ ''4'' @ ''-'' @ ''5'' @ ''-'' @ ''6'' @ '']'' @
       ([CHR 0x0A] @ ''MAIN DEFECT LINE: [2]'')
   \<and> parse_llm_result (chat_response two_lists_content) = Inr (Some ''1-2-3'', ''UNKNOWN'', JStr [])
   \<and> \<not> (\<exists>category description. parse_llm_result (chat_response two_lists_content) =
           Inr (Some (''4'' @ ''-'' @ ''5'' @ ''-'' @ ''6''), category, description))"
proof -
  let ?c = two_lists_content
  have h1: "has_content (chat_response ?c) ?c" by (rule has_content_chat_response)
  have h2: "\<not> contains ''RESULT: [NO]'' ?c" by code_simp
  have h3: "contains ''MULTIPLE DEFECTS: [YES]'' ?c" by code_simp
  have h4: "?c =
       (''RESULT: [YES]'' @ [CHR 0x0A] @ ''MULTIPLE DEFECTS: [YES]'' @ [CHR 0x0A] @
        ''ALL DEFECT LINES: [1-2-3]'' @ [CHR 0x0A]) @
       ''ALL DEFECT LINES: ['' @ ''4'' @ ''-'' @ ''5'' @ ''-'' @ ''6'' @ '']'' @
       ([CHR 0x0A] @ ''MAIN DEFECT LINE: [2]'')"
    by (simp add: two_lists_content_def)
  have h5: "parse_llm_result (chat_response ?c) = Inr (Some ''1-2-3'', ''UNKNOWN'', JStr [])"
    by code_simp
  have h6: "\<not> (\<exists>category description. parse_llm_result (chat_response ?c) =
           Inr (Some (''4'' @ ''-'' @ ''5'' @ ''-'' @ ''6''), category, description))"
    unfolding h5 by simp
  show ?thesis by (intro conjI) (rule h1 h2 h3 h4 h5 h6)+
qed

text \<open>
  C10. For every response content that contains \<open>MULTIPLE DEFECTS: [YES]\<close> and no text of
  the form \<open>ALL DEFECT LINES:\<close>, whitespace, \<open>[\<close>, digits and hyphens, \<open>]\<close>, the defect line
  returned is \<open>None\<close>, also when the content holds a well-formed marker
  \<open>DEFECT LINE: [n]\<close>: with several defects announced the single-defect marker is not
  read. (With the no-defect marker in the content the defect line is \<open>None\<close> as well.)
\<close>

theorem multiple_defects_without_list:
  assumes "has_content result content"
    and "contains ''MULTIPLE DEFECTS: [YES]'' content"
    and "\<not> (\<exists>pre ws ls suf.
            content = pre @ ''ALL DEFECT LINES:'' @ ws @ ''['' @ ls @ '']'' @ suf
            \<and> list_all isspace ws \<and> ls \<noteq> [] \<and> list_all is_digit_or_hyphen ls)"
  shows "\<exists>category description. parse_llm_result result = Inr (None, category, description)"
proof -
  have "rx_search ALL_DEFECT_LINES_RE content = None"
    unfolding ALL_DEFECT_LINES_RE_def
    using not_digit_or_hyphen_close assms(3) by (rule rx_search_bracketed_None)
  then have "extract_defect_line content = None"
    using assms(2) by (simp add: extract_defect_line_def rx_group1_def)
  then show ?thesis
    unfolding parse_llm_result_has_content [OF assms(1)] parse_content_def by simp
qed

theorem multiple_defects_without_list_witness:
  "has_content (chat_response malformed_list_content) malformed_list_content
   \<and> contains ''MULTIPLE DEFECTS: [YES]'' malformed_list_content
   \<and> \<not> (\<exists>pre ws ls suf.
            malformed_list_content = pre @ ''ALL DEFECT LINES:'' @ ws @ ''['' @ ls @ '']'' @ suf
            \<and> list_all isspace ws \<and> ls \<noteq> [] \<and> list_all is_digit_or_hyphen ls)
   \<and> contains ''DEFECT LINE: [7]'' malformed_list_content
   \<and> (\<exists>category description. parse_llm_result (chat_response malformed_list_content) =
         Inr (None, category, description))"
proof -
  let ?c = malformed_list_content
  have h1: "has_content (chat_response ?c) ?c" by (rule has_content_chat_response)
  have h2: "contains ''MULTIPLE DEFECTS: [YES]'' ?c" by code_simp
  have "rx_search (bracketed ''ALL DEFECT LINES:'' is_digit_or_hyphen) ?c = None" by code_simp
  then have h3: "\<not> (\<exists>pre ws ls suf.
            ?c = pre @ ''ALL DEFECT LINES:'' @ ws @ ''['' @ ls @ '']'' @ suf
            \<and> list_all isspace ws \<and> ls \<noteq> [] \<and> list_all is_digit_or_hyphen ls)"
    unfolding rx_search_bracketed_None_iff
                [where cls = is_digit_or_hyphen, OF not_digit_or_hyphen_close] .
  have h4: "contains ''DEFECT LINE: [7]'' ?c" by code_simp
  note r = multiple_defects_without_list [OF h1 h2 h3]
  show ?thesis
    by (intro conjI) (rule h1 h2 h3 h4 r)+
qed

section \<open>The category\<close>

text \<open>
  C7, as amended. For every response content without the no-defect marker,
  \<open>parse_llm_result\<close> returns as category the token of upper-case letters and underscores
  that follows the marker \<open>DEFECT CATEGORY:\<close> (after optional whitespace and an optional
  opening bracket) at the first place in the content where such a token follows the
  marker; when there is no such place, the category is \<open>UNKNOWN\<close>.
\<close>

theorem category_is_first_upper_case_token:
  assumes "has_content result content" and "\<not> contains ''RESULT: [NO]'' content"
  shows "(\<forall>i tok. category_token_at (drop i content) tok
              \<and> (\<forall>j < i. \<forall>tok'. \<not> category_token_at (drop j content) tok')
            \<longrightarrow> (\<exists>line description. parse_llm_result result = Inr (line, tok, description)))
       \<and> ((\<forall>i tok. \<not> category_token_at (drop i content) tok)
            \<longrightarrow> (\<exists>line description.
                   parse_llm_result result = Inr (line, ''UNKNOWN'', description)))"
  unfolding parse_llm_result_has_content [OF assms(1)] parse_content_def
  using assms(2) extract_category_first extract_category_none by auto

theorem category_is_first_upper_case_token_witness:
  "has_content (chat_response single_defect_content) single_defect_content
   \<and> \<not> contains ''RESULT: [NO]'' single_defect_content
   \<and> category_token_at (drop 32 single_defect_content) ''PORT_TYPE''
   \<and> \<not> (\<exists>j < 32. \<exists>tok'. category_token_at (drop j single_defect_content) tok')
   \<and> (\<exists>line description. parse_llm_result (chat_response single_defect_content) =
         Inr (line, ''PORT_TYPE'', description))
   \<and> has_content (chat_response lower_case_category_content) lower_case_category_content
   \<and> \<not> contains ''RESULT: [NO]'' lower_case_category_content
   \<and> \<not> (\<exists>i tok. category_token_at (drop i lower_case_category_content) tok)
   \<and> (\<exists>line description. parse_llm_result (chat_response lower_case_category_content) =
         Inr (line, ''UNKNOWN'', description))"
proof -
  let ?c = single_defect_content and ?l = lower_case_category_content
  have h1: "has_content (chat_response ?c) ?c" by (rule has_content_chat_response)
  have h2: "\<not> contains ''RESULT: [NO]'' ?c" by code_simp
  have "drop 32 ?c = ''DEFECT CATEGORY:'' @ '' '' @ ''['' @ ''PORT_TYPE'' @
          ('']'' @ [CHR 0x0A] @ ''DESCRIPTION: Output port unassigned.'')"
    by code_simp
  moreover have "list_all isspace '' ''" by code_simp
  moreover have "list_all is_upper_or_underscore ''PORT_TYPE''" by code_simp
  ultimately have h3: "category_token_at (drop 32 ?c) ''PORT_TYPE''"
    unfolding category_token_at_def using not_upper_close
    by (intro exI [of _ "'' ''"] exI [of _ "''[''"]
          exI [of _ "'']'' @ [CHR 0x0A] @ ''DESCRIPTION: Output port unassigned.''"]) simp
  have "str_find ''DEFECT CATEGORY:'' ?c = Some 32" by code_simp
  then have h4: "\<forall>j < 32. \<forall>tok'. \<not> category_token_at (drop j ?c) tok'"
    using category_token_at_startswith unfolding str_find_Some_iff by blast
  have g1: "has_content (chat_response ?l) ?l" by (rule has_content_chat_response)
  have g2: "\<not> contains ''RESULT: [NO]'' ?l" by code_simp
  have "rx_search DEFECT_CATEGORY_RE ?l = None" by code_simp
  then have g3: "\<forall>i tok. \<not> category_token_at (drop i ?l) tok"
    unfolding rx_search_category_None_iff .
  from category_is_first_upper_case_token [OF h1 h2] h3 h4
  have r1: "\<exists>line description. parse_llm_result (chat_response ?c) =
         Inr (line, ''PORT_TYPE'', description)" by blast
  from category_is_first_upper_case_token [OF g1 g2] g3
  have r2: "\<exists>line description. parse_llm_result (chat_response ?l) =
         Inr (line, ''UNKNOWN'', description)" by blast
  have h4': "\<not> (\<exists>j < 32. \<exists>tok'. category_token_at (drop j ?c) tok')" using h4 by blast
  have g3': "\<not> (\<exists>i tok. category_token_at (drop i ?l) tok)" using g3 by blast
  show ?thesis
    by (intro conjI) (rule h1 h2 h3 h4' r1 g1 g2 g3' r2)+
qed

text \<open>
  The claim as it was stated speaks of letters, and of every content. A category in mixed
  case is cut at its first lower-case letter, and with the no-defect marker in the
  content the category is \<open>NONE\<close>, although no category token is present.
\<close>

theorem category_claim_counterexample:
  "mixed_case_category_content =
     (''RESULT: [YES]'' @ [CHR 0x0A] @ ''DEFECT LINE: [5]'' @ [CHR 0x0A]) @
     ''DEFECT CATEGORY: ['' @ ''Port_Type'' @ '']''
   \<and> parse_llm_result (chat_response mixed_case_category_content) = Inr (Some ''5'', ''P'', JStr [])
   \<and> \<not> contains ''DEFECT CATEGORY'' ''RESULT: [NO]''
   \<and> parse_llm_result (chat_response ''RESULT: [NO]'') =
       Inr (None, ''NONE'', JStr ''No defects found'')"
proof -
  have h1: "mixed_case_category_content =
     (''RESULT: [YES]'' @ [CHR 0x0A] @ ''DEFECT LINE: [5]'' @ [CHR 0x0A]) @
     ''DEFECT CATEGORY: ['' @ ''Port_Type'' @ '']''"
    by (simp add: mixed_case_category_content_def)
  have h2: "parse_llm_result (chat_response mixed_case_category_content) =
      Inr (Some ''5'', ''P'', JStr [])" by code_simp
  have h3: "\<not> contains ''DEFECT CATEGORY'' ''RESULT: [NO]''" by code_simp
  have h4: "parse_llm_result (chat_response ''RESULT: [NO]'') =
       Inr (None, ''NONE'', JStr ''No defects found'')" by code_simp
  show ?thesis
    by (intro conjI) (rule h1 h2 h3 h4)+
qed

section \<open>The description\<close>

lemma not_isspace_hd_dropWhile:
  assumes "d \<noteq> []" "\<not> isspace (hd d)" "list_all isspace ws"
  shows "dropWhile isspace (ws @ d @ r) = d @ r"
  using assms by (cases d) (auto simp: dropWhile_append2 list_all_iff)

lemma strip_padded:
  assumes "d \<noteq> []" "\<not> isspace (hd d)" "\<not> isspace (last d)" "list_all isspace ws2"
  shows "strip (d @ ws2) = d"
proof -
  have 1: "dropWhile isspace (d @ ws2) = d @ ws2"
    using assms(1,2) by (cases d) auto
  have "rev d \<noteq> []" "\<not> isspace (hd (rev d))"
    using assms(1,3) by (simp_all add: hd_rev)
  moreover have "list_all isspace (rev ws2)" using assms(4) by (simp add: list_all_iff)
  ultimately have "dropWhile isspace (rev ws2 @ rev d @ []) = rev d @ []"
    by (rule not_isspace_hd_dropWhile)
  then show ?thesis unfolding strip_def 1 by simp
qed

lemma rx_match_description_no_keyword:
  assumes "\<not> startswith ''DESCRIPTION:'' s"
  shows "rx_match DESCRIPTION_RE s (None, None) = None"
  using assms unfolding rx_match_description by (simp only: if_False)

lemma isspace_newline: "isspace (CHR 0x0A)"
  unfolding isspace_def by simp

text \<open>The description line: the text \<open>d\<close> behind the marker, up to the line break, with
  whitespace \<open>ws\<close> before it and \<open>ws2\<close> behind it.\<close>

lemma rx_search_description_line:
  assumes content: "content = pre @ ''DESCRIPTION:'' @ ws @ d @ ws2 @ rest"
    and ws: "list_all isspace ws"
    and d: "d \<noteq> []" "\<not> isspace (hd d)" "CHR 0x0A \<notin> set d"
    and ws2: "CHR 0x0A \<notin> set ws2"
    and rest: "rest = [] \<or> hd rest = CHR 0x0A"
    and first: "str_find ''DESCRIPTION:'' content = Some (length pre)"
  shows "rx_group1 (rx_search DESCRIPTION_RE content) = Some (d @ ws2)"
proof -
  let ?s = "''DESCRIPTION:'' @ ws @ d @ ws2 @ rest"
  have sw: "startswith ''DESCRIPTION:'' ?s" by (rule startswith_append)
  have d0: "drop (length ''DESCRIPTION:'') ?s = ws @ d @ ws2 @ rest" by simp
  have d1: "dropWhile isspace (ws @ d @ ws2 @ rest) = d @ ws2 @ rest"
    using d(1,2) ws by (rule not_isspace_hd_dropWhile)
  have ne: "d @ ws2 @ rest \<noteq> []" using d(1) by simp
  have hd: "hd (d @ ws2 @ rest) = hd d" and tl: "tl (d @ ws2 @ rest) = tl d @ ws2 @ rest"
    using d(1) by simp_all
  have all: "list_all not_newline (tl d @ ws2)"
    using d(1,3) ws2 by (cases d) (auto simp: list_all_iff not_newline_def)
  have r: "rest = [] \<or> \<not> not_newline (hd rest)" using rest by (auto simp: not_newline_def)
  have tw: "takeWhile not_newline ((tl d @ ws2) @ rest) = tl d @ ws2"
    using all r by (rule takeWhile_token)
  have grp: "hd d # tl d @ ws2 = d @ ws2" using d(1) by simp
  have "rx_group1 (rx_match DESCRIPTION_RE ?s (None, None)) = Some (d @ ws2)"
    unfolding rx_match_description Let_def d0 d1 rx_match_description_tail hd tl
    using sw ne tw grp by (simp add: rx_group1_def)
  then obtain r' where hit: "rx_match DESCRIPTION_RE ?s (None, None) = Some (r', Some (d @ ws2))"
    by (auto simp: rx_group1_def split: option.splits)
  have miss: "rx_match DESCRIPTION_RE (drop j (pre @ ?s)) (None, None) = None"
    if "j < length pre" for j
  proof -
    have "\<not> startswith ''DESCRIPTION:'' (drop j content)"
      using first that unfolding str_find_Some_iff by blast
    then show ?thesis unfolding content by (rule rx_match_description_no_keyword)
  qed
  have "rx_search DESCRIPTION_RE (pre @ ?s) = Some (r', Some (d @ ws2))"
    using hit miss by (rule rx_search_first)
  then show ?thesis unfolding content by (simp add: rx_group1_def)
qed

lemma length_split_dot_first: "length (split_dot_first d) \<le> length d"
  unfolding split_dot_first_def by (rule length_takeWhile_le)

lemma split_dot_first_less:
  assumes "CHR ''.'' \<in> set d"
  shows "length (split_dot_first d) < length d"
proof -
  have "takeWhile (\<lambda>c. c \<noteq> CHR ''.'') d \<noteq> d"
    using assms by (metis (mono_tags, lifting) set_takeWhileD)
  then have "dropWhile (\<lambda>c. c \<noteq> CHR ''.'') d \<noteq> []"
    by (metis append_Nil2 takeWhile_dropWhile_id)
  moreover have "length d = length (takeWhile (\<lambda>c. c \<noteq> CHR ''.'') d)
      + length (dropWhile (\<lambda>c. c \<noteq> CHR ''.'') d)"
    by (metis length_append takeWhile_dropWhile_id)
  ultimately show ?thesis unfolding split_dot_first_def by (cases "dropWhile (\<lambda>c. c \<noteq> CHR ''.'') d") auto
qed

text \<open>
  C1, as amended. For every response content from which a structured description is
  extracted (the marker \<open>DESCRIPTION:\<close> is matched; \<open>d\<close> is the text behind it up to the
  line break, without the whitespace around it), the description returned is \<open>d\<close> up to
  and with its first full stop when \<open>d\<close> has a full stop, however long that first sentence
  is; without a full stop it is the first 97 characters of \<open>d\<close> and an ellipsis of three
  characters, 100 in all, when \<open>d\<close> is longer than 100 characters, and \<open>d\<close> itself
  otherwise. So a description without a full stop never exceeds 100 characters, and one
  with a full stop never exceeds the length of \<open>d\<close>.
\<close>

theorem description_truncation:
  assumes "has_content result content"
    and "\<not> contains ''RESULT: [NO]'' content"
    and "content = pre @ ''DESCRIPTION:'' @ ws @ d @ ws2 @ rest"
    and "list_all isspace ws"
    and "d \<noteq> []" and "\<not> isspace (hd d)" and "\<not> isspace (last d)" and "CHR 0x0A \<notin> set d"
    and "list_all isspace ws2" and "CHR 0x0A \<notin> set ws2"
    and "rest = [] \<or> hd rest = CHR 0x0A"
    and "str_find ''DESCRIPTION:'' content = Some (length pre)"
  shows "\<exists>line category description.
           parse_llm_result result = Inr (line, category, JStr description)
           \<and> description =
               (if CHR ''.'' \<in> set d then takeWhile (\<lambda>c. c \<noteq> CHR ''.'') d @ ''.''
                else if 100 < length d then take 97 d @ ''...''
                else d)
           \<and> (CHR ''.'' \<in> set d \<longrightarrow> length description \<le> length d)
           \<and> (CHR ''.'' \<notin> set d \<longrightarrow> length description \<le> 100)
           \<and> (CHR ''.'' \<notin> set d \<and> 100 < length d \<longrightarrow> length description = 100)"
proof -
  have g: "rx_group1 (rx_search DESCRIPTION_RE content) = Some (d @ ws2)"
    using assms(3,4,5,6,8,10,11,12) by (rule rx_search_description_line)
  have s: "strip (d @ ws2) = d" using assms(5,6,7,9) by (rule strip_padded)
  have ne: "truncate_description d \<noteq> []"
    using assms(5) by (auto simp: truncate_description_def)
  have "extract_description content = truncate_description d"
    using ne by (simp add: extract_description_def g s Let_def)
  then have "parse_llm_result result =
      Inr (extract_defect_line content, extract_category content, JStr (truncate_description d))"
    unfolding parse_llm_result_has_content [OF assms(1)] parse_content_def
    using assms(2) by simp
  moreover have "truncate_description d =
      (if CHR ''.'' \<in> set d then takeWhile (\<lambda>c. c \<noteq> CHR ''.'') d @ ''.''
       else if 100 < length d then take 97 d @ ''...'' else d)"
    by (simp add: truncate_description_def split_dot_first_def)
  moreover have "CHR ''.'' \<in> set d \<longrightarrow> length (truncate_description d) \<le> length d"
    using split_dot_first_less [of d] by (auto simp: truncate_description_def)
  moreover have "CHR ''.'' \<notin> set d \<longrightarrow> length (truncate_description d) \<le> 100"
    by (auto simp: truncate_description_def)
  moreover have "CHR ''.'' \<notin> set d \<and> 100 < length d \<longrightarrow> length (truncate_description d) = 100"
    by (auto simp: truncate_description_def)
  ultimately show ?thesis by blast
qed

theorem description_truncation_witness:
  "has_content (chat_response single_defect_content) single_defect_content
   \<and> \<not> contains ''RESULT: [NO]'' single_defect_content
   \<and> single_defect_content =
       (''RESULT: [YES]'' @ [CHR 0x0A] @ ''DEFECT LINE: [12]'' @ [CHR 0x0A] @
        ''DEFECT CATEGORY: [PORT_TYPE]'' @ [CHR 0x0A]) @
       ''DESCRIPTION:'' @ '' '' @ ''Output port unassigned.'' @ [] @ []
   \<and> str_find ''DESCRIPTION:'' single_defect_content =
       Some (length (''RESULT: [YES]'' @ [CHR 0x0A] @ ''DEFECT LINE: [12]'' @ [CHR 0x0A] @
        ''DEFECT CATEGORY: [PORT_TYPE]'' @ [CHR 0x0A]))
   \<and> (\<exists>line category. parse_llm_result (chat_response single_defect_content) =
         Inr (line, category, JStr ''Output port unassigned.''))
   \<and> has_content (chat_response long_description_content) long_description_content
   \<and> \<not> contains ''RESULT: [NO]'' long_description_content
   \<and> long_description_content =
       [] @ ''DESCRIPTION:'' @ '' '' @ replicate 120 CHR ''x'' @ [] @ []
   \<and> CHR ''.'' \<notin> set (replicate 120 CHR ''x'')
   \<and> 100 < length (replicate 120 CHR ''x'')
   \<and> str_find ''DESCRIPTION:'' long_description_content = Some (length ([] :: string))
   \<and> (\<exists>line category. parse_llm_result (chat_response long_description_content) =
         Inr (line, category, JStr (replicate 97 CHR ''x'' @ ''...'')))
   \<and> length (replicate 97 CHR ''x'' @ ''...'') = 100"
proof -
  let ?c = single_defect_content and ?l = long_description_content
  let ?pre = "''RESULT: [YES]'' @ [CHR 0x0A] @ ''DEFECT LINE: [12]'' @ [CHR 0x0A] @
        ''DEFECT CATEGORY: [PORT_TYPE]'' @ [CHR 0x0A]"
  let ?d = "''Output port unassigned.''"
  let ?x = "replicate 120 CHR ''x''"
  have sp: "list_all isspace '' ''" by code_simp
  have e: "list_all isspace []" "CHR 0x0A \<notin> set ([] :: string)"
    "([] :: string) = [] \<or> hd ([] :: string) = CHR 0x0A" by simp_all
  have h1: "has_content (chat_response ?c) ?c" by (rule has_content_chat_response)
  have h2: "\<not> contains ''RESULT: [NO]'' ?c" by code_simp
  have h3: "?c = ?pre @ ''DESCRIPTION:'' @ '' '' @ ?d @ [] @ []"
    by (simp add: single_defect_content_def)
  have h5: "?d \<noteq> []" "\<not> isspace (hd ?d)" "\<not> isspace (last ?d)" "CHR 0x0A \<notin> set ?d"
    by code_simp+
  have h12: "str_find ''DESCRIPTION:'' ?c = Some (length ?pre)" by code_simp
  have v1: "(if CHR ''.'' \<in> set ?d then takeWhile (\<lambda>c. c \<noteq> CHR ''.'') ?d @ ''.''
                else if 100 < length ?d then take 97 ?d @ ''...'' else ?d) = ?d"
    by code_simp
  from description_truncation [OF h1 h2 h3 sp h5 e h12]
  have r1: "\<exists>line category. parse_llm_result (chat_response ?c) = Inr (line, category, JStr ?d)"
    unfolding v1 by blast
  have g1: "has_content (chat_response ?l) ?l" by (rule has_content_chat_response)
  have g2: "\<not> contains ''RESULT: [NO]'' ?l" by code_simp
  have g3: "?l = [] @ ''DESCRIPTION:'' @ '' '' @ ?x @ [] @ []"
    by (simp add: long_description_content_def)
  have g5: "?x \<noteq> []" "\<not> isspace (hd ?x)" "\<not> isspace (last ?x)" "CHR 0x0A \<notin> set ?x"
    by code_simp+
  have g12: "str_find ''DESCRIPTION:'' ?l = Some (length ([] :: string))" by code_simp
  have nd: "CHR ''.'' \<notin> set ?x" by code_simp
  have ln: "100 < length ?x" by simp
  have v2: "(if CHR ''.'' \<in> set ?x then takeWhile (\<lambda>c. c \<noteq> CHR ''.'') ?x @ ''.''
                else if 100 < length ?x then take 97 ?x @ ''...'' else ?x)
             = replicate 97 CHR ''x'' @ ''...''"
    by code_simp
  from description_truncation [OF g1 g2 g3 sp g5 e g12]
  have r2: "\<exists>line category. parse_llm_result (chat_response ?l) =
        Inr (line, category, JStr (replicate 97 CHR ''x'' @ ''...''))"
    unfolding v2 by blast
  have l100: "length (replicate 97 CHR ''x'' @ ''...'') = 100" by simp
  show ?thesis
    by (intro conjI) (rule h1 h2 h3 h12 r1 g1 g2 g3 nd ln g12 r2 l100)+
qed

text \<open>
  The claim as it was stated bounds every extracted description by 100 characters. The
  full stop is looked for first, and a first sentence of 120 characters is returned
  whole, with its full stop: 121 characters.
\<close>

theorem long_first_sentence_not_truncated:
  "has_content (chat_response long_sentence_content) long_sentence_content
   \<and> rx_group1 (rx_search DESCRIPTION_RE long_sentence_content)
        = Some (replicate 120 CHR ''x'' @ ''.'')
   \<and> parse_llm_result (chat_response long_sentence_content)
        = Inr (None, ''UNKNOWN'', JStr (replicate 120 CHR ''x'' @ ''.''))
   \<and> length (replicate 120 CHR ''x'' @ ''.'') = 121
   \<and> \<not> length (replicate 120 CHR ''x'' @ ''.'') \<le> 100"
proof -
  let ?c = long_sentence_content
  have h1: "has_content (chat_response ?c) ?c" by (rule has_content_chat_response)
  have h2: "rx_group1 (rx_search DESCRIPTION_RE ?c) = Some (replicate 120 CHR ''x'' @ ''.'')"
    by code_simp
  have h3: "parse_llm_result (chat_response ?c)
        = Inr (None, ''UNKNOWN'', JStr (replicate 120 CHR ''x'' @ ''.''))"
    by code_simp
  have h4: "length (replicate 120 CHR ''x'' @ ''.'') = 121" by simp
  have h5: "\<not> length (replicate 120 CHR ''x'' @ ''.'') \<le> 100" by simp
  show ?thesis by (intro conjI) (rule h1 h2 h3 h4 h5)+
qed

section \<open>Facts about the decimal numerals\<close>

lemma of_char_digit_char: "d < 10 \<Longrightarrow> of_char (digit_char d) = 48 + d"
  by (simp add: digit_char_def)

lemma digit_value_digit_char: "d < 10 \<Longrightarrow> digit_value (digit_char d) = d"
  by (simp add: digit_value_def of_char_digit_char)

lemma nat_of_str_append:
  "nat_of_str (s @ [c]) = 10 * nat_of_str s + digit_value c"
  by (simp add: nat_of_str_def)

lemma nat_of_str_str_nat: "nat_of_str (str_nat n) = n"
proof (induction n rule: str_nat.induct)
  case (1 n)
  show ?case
  proof (cases "n < 10")
    case True
    then have "str_nat n = [digit_char n]" by (subst str_nat.simps) simp
    then show ?thesis using True by (simp add: nat_of_str_def digit_value_digit_char)
  next
    case False
    then have "str_nat n = str_nat (n div 10) @ [digit_char (n mod 10)]"
      by (subst str_nat.simps) simp
    then have "nat_of_str (str_nat n) = 10 * nat_of_str (str_nat (n div 10))
        + digit_value (digit_char (n mod 10))"
      by (simp only: nat_of_str_append)
    then show ?thesis using 1 False by (simp add: digit_value_digit_char)
  qed
qed

lemma str_nat_not_Nil: "str_nat n \<noteq> []"
  by (subst str_nat.simps) simp

lemma digit_char_not_minus: "d < 10 \<Longrightarrow> digit_char d \<noteq> CHR ''-''"
proof
  assume d: "d < 10" and "digit_char d = CHR ''-''"
  then have "of_char (digit_char d) = (of_char CHR ''-'' :: nat)" by simp
  then show False using d by (simp add: of_char_digit_char)
qed

lemma hd_str_nat_not_minus: "hd (str_nat n) \<noteq> CHR ''-''"
proof (induction n rule: str_nat.induct)
  case (1 n)
  show ?case
  proof (cases "n < 10")
    case True
    then have "str_nat n = [digit_char n]" by (subst str_nat.simps) simp
    then show ?thesis using True by (simp add: digit_char_not_minus)
  next
    case False
    then have "str_nat n = str_nat (n div 10) @ [digit_char (n mod 10)]"
      by (subst str_nat.simps) simp
    then have "hd (str_nat n) = hd (str_nat (n div 10))"
      by (simp add: str_nat_not_Nil)
    then show ?thesis using 1 False by simp
  qed
qed

lemma int_of_str_str_int: "int_of_str (str_int i) = i"
proof (cases "i < 0")
  case True
  then show ?thesis by (simp add: int_of_str_def str_int_def nat_of_str_str_nat)
next
  case False
  have "\<not> startswith ''-'' (str_nat (nat i))"
    using hd_str_nat_not_minus [of "nat i"] by (simp add: startswith_single)
  then show ?thesis using False by (simp add: int_of_str_def str_int_def nat_of_str_str_nat)
qed

lemma str_int_inject: "str_int i = str_int j \<Longrightarrow> i = j"
  by (metis int_of_str_str_int)

section \<open>The inference client\<close>

lemma send_llm_request_of_Inr: "\<exists>v. send_llm_request_of r = Inr v"
  unfolding send_llm_request_of_def by (simp split: sum.splits py_exc.splits)

lemma handled_message_not_Nil: "handled_message exc \<noteq> []"
  by (cases exc) (simp_all add: handled_message_def)

lemma send_llm_request_of_PostRaised:
  "send_llm_request_of (PostRaised exc) = Inr (error_value (handled_message exc))"
  by (cases exc) (simp_all add: send_llm_request_of_def send_llm_request_try_def handled_message_def)

lemma send_llm_request_of_not_JSON:
  "send_llm_request_of (Response 200 (Inl exc)) = Inr (error_value (handled_message exc))"
  by (cases exc) (simp_all add: send_llm_request_of_def send_llm_request_try_def handled_message_def)

lemma send_llm_request_of_status:
  "status_code \<noteq> 200 \<Longrightarrow> send_llm_request_of (Response status_code body) =
     Inr (error_value (''Request failed with status code: '' @ str_int status_code))"
  by (simp add: send_llm_request_of_def send_llm_request_try_def)

lemma send_llm_request_of_body:
  "send_llm_request_of (Response 200 (Inr v)) = Inr v"
  by (simp add: send_llm_request_of_def send_llm_request_try_def)

lemma send_llm_request_of_failed:
  assumes "\<not> request_succeeded r"
  shows "\<exists>message. message \<noteq> [] \<and> send_llm_request_of r = Inr (error_value message)"
proof (cases r)
  case (PostRaised exc)
  then show ?thesis
    using send_llm_request_of_PostRaised handled_message_not_Nil by blast
next
  case (Response status_code body)
  show ?thesis
  proof (cases "status_code = 200")
    case False
    have "''Request failed with status code: '' @ str_int status_code \<noteq> []" by simp
    then show ?thesis using Response send_llm_request_of_status [OF False] by blast
  next
    case True
    then obtain exc where "body = Inl exc"
      using assms Response by (cases body) (auto simp: request_succeeded_def)
    then show ?thesis
      using Response True send_llm_request_of_not_JSON handled_message_not_Nil by blast
  qed
qed

lemma parse_llm_result_error_value:
  "parse_llm_result (error_value message) = Inr (None, ''ERROR'', JStr message)"
  by (simp add: parse_llm_result_def error_value_def)

text \<open>
  C2, as amended. For every HTTP response received, \<open>send_llm_request\<close> returns the
  parsed response body if the status code is 200; every other status code, the other
  codes from 200 to 299 among them, yields the error value with the message
  \<open>Request failed with status code:\<close> and the code, from which the code can be read back;
  a response with the status 200 whose body is not JSON yields an error value too; and no
  exception leaves the function, whatever \<open>requests.post\<close> does.
\<close>

theorem send_llm_request_by_status:
  "(\<forall>status_code body.
      post e (create_llm_request_data Config context) = Response status_code body \<longrightarrow>
        (status_code = 200 \<longrightarrow> (\<forall>v. body = Inr v \<longrightarrow> send_llm_request e context = Inr v))
      \<and> (status_code = 200 \<longrightarrow> (\<forall>exc. body = Inl exc \<longrightarrow>
            (\<exists>message. message \<noteq> [] \<and> send_llm_request e context = Inr (error_value message))))
      \<and> (status_code \<noteq> 200 \<longrightarrow>
            send_llm_request e context =
              Inr (error_value (''Request failed with status code: '' @ str_int status_code))
            \<and> int_of_str (drop (length ''Request failed with status code: '')
                  (''Request failed with status code: '' @ str_int status_code)) = status_code))
   \<and> (\<exists>v. send_llm_request e context = Inr v)"
proof -
  have "\<exists>message. message \<noteq> [] \<and> send_llm_request_of (Response 200 (Inl exc)) = Inr (error_value message)"
    for exc
    using send_llm_request_of_not_JSON handled_message_not_Nil by blast
  then show ?thesis
    using send_llm_request_of_Inr [of "post e (create_llm_request_data Config context)"]
    by (auto simp: send_llm_request_def send_llm_request_of_status send_llm_request_of_body
          int_of_str_str_int)
qed

theorem send_llm_request_by_status_witness:
  "post created_env (create_llm_request_data Config ''prompt'')
     = Response 201 (Inr (chat_response single_defect_content))
   \<and> send_llm_request created_env ''prompt''
       = Inr (error_value ''Request failed with status code: 201'')
   \<and> int_of_str (drop (length ''Request failed with status code: '')
                  ''Request failed with status code: 201'') = 201
   \<and> post null_content_env (create_llm_request_data Config ''prompt'')
       = Response 200 (Inr (JObj [(''message'',
                            JObj [(''role'', JStr ''assistant''), (''content'', JNull)])]))
   \<and> send_llm_request null_content_env ''prompt''
       = Inr (JObj [(''message'', JObj [(''role'', JStr ''assistant''), (''content'', JNull)])])"
proof -
  have p1: "post created_env (create_llm_request_data Config ''prompt'')
     = Response 201 (Inr (chat_response single_defect_content))"
    by (simp add: created_env_def)
  have p2: "post null_content_env (create_llm_request_data Config ''prompt'')
       = Response 200 (Inr (JObj [(''message'',
                            JObj [(''role'', JStr ''assistant''), (''content'', JNull)])]))"
    by (simp add: null_content_env_def)
  have s201: "str_int 201 = ''201''" by code_simp
  note t1 = send_llm_request_by_status [of created_env "''prompt''"]
  note t2 = send_llm_request_by_status [of null_content_env "''prompt''"]
  have r1: "send_llm_request created_env ''prompt''
       = Inr (error_value ''Request failed with status code: 201'')"
    using t1 p1 s201 by simp
  have r1': "int_of_str (drop (length ''Request failed with status code: '')
                  ''Request failed with status code: 201'') = 201"
    using t1 p1 s201 by simp
  have r2: "send_llm_request null_content_env ''prompt''
       = Inr (JObj [(''message'', JObj [(''role'', JStr ''assistant''), (''content'', JNull)])])"
    using t2 p2 by simp
  show ?thesis by (intro conjI) (rule p1 r1 r1' p2 r2)+
qed

text \<open>
  The claim as it was stated has every status code from 200 to 299 return the body. The
  code compares the status code with 200: a response with the status 201 and a well-formed
  body yields the error value.
\<close>

theorem status_201_is_an_error:
  "post created_env (create_llm_request_data Config ''prompt'')
     = Response 201 (Inr (chat_response single_defect_content))
   \<and> send_llm_request created_env ''prompt''
       = Inr (error_value ''Request failed with status code: 201'')
   \<and> send_llm_request created_env ''prompt'' \<noteq> Inr (chat_response single_defect_content)"
proof -
  have p1: "post created_env (create_llm_request_data Config ''prompt'')
     = Response 201 (Inr (chat_response single_defect_content))"
    by (simp add: created_env_def)
  have r1: "send_llm_request created_env ''prompt''
       = Inr (error_value ''Request failed with status code: 201'')"
    by code_simp
  have r2: "send_llm_request created_env ''prompt'' \<noteq> Inr (chat_response single_defect_content)"
    unfolding r1 by (simp add: error_value_def chat_response_def)
  show ?thesis by (intro conjI) (rule p1 r1 r2)+
qed

section \<open>The batch runner: a module that fails\<close>

lemma analyze_verilog_module_missing:
  assumes "\<not> path_exists e (build_verilog_path base_path module_name)"
  shows "analyze_verilog_module e module_name base_path =
           Inr (error_value (''File not found: '' @ build_verilog_path base_path module_name))"
  using assms by (simp add: analyze_verilog_module_def)

lemma analyze_verilog_module_Inr: "\<exists>result. analyze_verilog_module e module_name base_path = Inr result"
  by (simp add: analyze_verilog_module_def Let_def split: sum.splits)

lemma analyze_verilog_module_sent:
  assumes "path_exists e (build_verilog_path base_path module_name)"
    and "read_lines e (build_verilog_path base_path module_name) = Inr verilog_code_lines"
  shows "analyze_verilog_module e module_name base_path =
           send_llm_request e (build_analysis_prompt e module_name verilog_code_lines)"
proof -
  obtain v where "send_llm_request e (build_analysis_prompt e module_name verilog_code_lines) = Inr v"
    using send_llm_request_of_Inr unfolding send_llm_request_def by blast
  then show ?thesis
    using assms by (simp add: analyze_verilog_module_def analyze_verilog_module_try_def)
qed

lemma process_module_error_value:
  assumes "analyze_verilog_module e (module_prefix @ str_int k) base_path = Inr (error_value message)"
  shows "process_module e module_prefix base_path k csvfile =
           (write_to_csv csvfile (rstrip_underscore module_prefix)
              (module_prefix @ str_int k @ ''.v'') None ''ERROR'' (JStr message), None)"
  using assms by (simp add: process_module_def parse_llm_result_error_value)

text \<open>
  C6. For every error value that the inference client produces (the request raised, as
  when the connection is refused; the status code is not 200; the body is not JSON), the
  interpreter produces the Defect Record with no defect line, the category \<open>ERROR\<close> and
  the error message, which is not empty, as description; and the pass of the loop for
  that module writes this record as its row and ends without an exception.
\<close>

theorem client_error_gives_error_record:
  assumes "\<not> request_succeeded (post e (create_llm_request_data Config context))"
  shows "\<exists>message. message \<noteq> []
           \<and> send_llm_request e context = Inr (error_value message)
           \<and> parse_llm_result (error_value message) = Inr (None, ''ERROR'', JStr message)
           \<and> (\<forall>module_prefix base_path k csvfile verilog_code_lines.
                 path_exists e (build_verilog_path base_path (module_prefix @ str_int k))
                 \<and> read_lines e (build_verilog_path base_path (module_prefix @ str_int k))
                     = Inr verilog_code_lines
                 \<and> context = build_analysis_prompt e (module_prefix @ str_int k) verilog_code_lines
                 \<longrightarrow> process_module e module_prefix base_path k csvfile =
                       (write_to_csv csvfile (rstrip_underscore module_prefix)
                          (module_prefix @ str_int k @ ''.v'') None ''ERROR'' (JStr message),
                        None))"
proof -
  from assms obtain message where m: "message \<noteq> []"
    and s: "send_llm_request e context = Inr (error_value message)"
    using send_llm_request_of_failed unfolding send_llm_request_def by blast
  have "process_module e module_prefix base_path k csvfile =
          (write_to_csv csvfile (rstrip_underscore module_prefix)
             (module_prefix @ str_int k @ ''.v'') None ''ERROR'' (JStr message), None)"
    if "path_exists e (build_verilog_path base_path (module_prefix @ str_int k))"
      and "read_lines e (build_verilog_path base_path (module_prefix @ str_int k))
             = Inr verilog_code_lines"
      and "context = build_analysis_prompt e (module_prefix @ str_int k) verilog_code_lines"
    for module_prefix base_path k csvfile verilog_code_lines
  proof (rule process_module_error_value)
    show "analyze_verilog_module e (module_prefix @ str_int k) base_path = Inr (error_value message)"
      using analyze_verilog_module_sent [OF that(1,2)] s that(3) by simp
  qed
  then show ?thesis using m s parse_llm_result_error_value by blast
qed

theorem client_error_gives_error_record_witness:
  "\<not> request_succeeded (post refused_env (create_llm_request_data Config
        (build_analysis_prompt refused_env (''simple_'' @ str_int 1) two_lines)))
   \<and> send_llm_request refused_env
        (build_analysis_prompt refused_env (''simple_'' @ str_int 1) two_lines)
      = Inr (error_value ''Network request failed: Connection refused'')
   \<and> parse_llm_result (error_value ''Network request failed: Connection refused'')
      = Inr (None, ''ERROR'', JStr ''Network request failed: Connection refused'')
   \<and> process_module refused_env ''simple_'' ''Static-Verilog-Analysis/Benchmark/simple'' 1 None
      = (Some [Header fieldnames,
               Row ''simple'' ''simple_1.v'' ''N/A'' ''ERROR''
                 (JStr ''Network request failed: Connection refused'')], None)"
proof -
  let ?ctx = "build_analysis_prompt refused_env (''simple_'' @ str_int 1) two_lines"
  let ?M = "''Network request failed: Connection refused''"
  have h: "\<not> request_succeeded (post refused_env (create_llm_request_data Config ?ctx))"
    by (simp add: refused_env_def request_succeeded_def)
  have ev: "send_llm_request refused_env ?ctx = Inr (error_value ?M)"
    by (simp add: send_llm_request_def refused_env_def send_llm_request_of_PostRaised
          handled_message_def)
  from client_error_gives_error_record [OF h]
  obtain message where m: "send_llm_request refused_env ?ctx = Inr (error_value message)"
    and p: "parse_llm_result (error_value message) = Inr (None, ''ERROR'', JStr message)"
    and w: "\<forall>module_prefix base_path k csvfile verilog_code_lines.
                 path_exists refused_env (build_verilog_path base_path (module_prefix @ str_int k))
                 \<and> read_lines refused_env (build_verilog_path base_path (module_prefix @ str_int k))
                     = Inr verilog_code_lines
                 \<and> ?ctx = build_analysis_prompt refused_env (module_prefix @ str_int k) verilog_code_lines
                 \<longrightarrow> process_module refused_env module_prefix base_path k csvfile =
                       (write_to_csv csvfile (rstrip_underscore module_prefix)
                          (module_prefix @ str_int k @ ''.v'') None ''ERROR'' (JStr message),
                        None)"
    by blast
  have eq: "message = ?M" using m ev by (simp add: error_value_def)
  have f: "path_exists refused_env
             (build_verilog_path ''Static-Verilog-Analysis/Benchmark/simple'' (''simple_'' @ str_int 1))"
    "read_lines refused_env
             (build_verilog_path ''Static-Verilog-Analysis/Benchmark/simple'' (''simple_'' @ str_int 1))
       = Inr two_lines"
    by (simp_all add: refused_env_def)
  have s1: "str_int 1 = ''1''" by code_simp
  have rs: "rstrip_underscore ''simple_'' = ''simple''" by code_simp
  have "process_module refused_env ''simple_'' ''Static-Verilog-Analysis/Benchmark/simple'' 1 None
      = (write_to_csv None (rstrip_underscore ''simple_'') (''simple_'' @ str_int 1 @ ''.v'') None
           ''ERROR'' (JStr message), None)"
    using w f by blast
  then have r: "process_module refused_env ''simple_'' ''Static-Verilog-Analysis/Benchmark/simple'' 1 None
      = (Some [Header fieldnames,
               Row ''simple'' ''simple_1.v'' ''N/A'' ''ERROR'' (JStr ?M)], None)"
    unfolding eq s1 rs by (simp add: write_to_csv_def)
  show ?thesis using h ev p [unfolded eq] r by (intro conjI)
qed

section \<open>The rows of a batch\<close>

lemma write_to_csv_appended:
  "\<exists>row. write_to_csv csvfile level file_name defect_line defect_type description
           = appended csvfile [row] \<and> row_file_name row = Some file_name"
  by (cases csvfile) (simp_all add: write_to_csv_def appended_def)

lemma appended_Nil: "appended csvfile [] = csvfile"
  by (simp add: appended_def)

lemma appended_Some: "appended (Some old) rows = Some (old @ rows)"
  by (simp add: appended_def)

lemma appended_appended: "appended (appended csvfile r1) r2 = appended csvfile (r1 @ r2)"
  by (cases csvfile) (simp_all add: appended_def)

text \<open>A pass of the loop either writes the one row of its module, or raises and leaves
  the report as it was.\<close>

lemma process_module_cases:
  "(\<exists>row. process_module e module_prefix base_path k csvfile = (appended csvfile [row], None)
          \<and> row_file_name row = Some (module_prefix @ str_int k @ ''.v''))
   \<or> (\<exists>exc. process_module e module_prefix base_path k csvfile = (csvfile, Some exc))"
proof -
  obtain result where a: "analyze_verilog_module e (module_prefix @ str_int k) base_path = Inr result"
    using analyze_verilog_module_Inr by blast
  show ?thesis
  proof (cases "parse_llm_result result")
    case (Inl exc)
    then show ?thesis using a by (simp add: process_module_def)
  next
    case (Inr triple)
    obtain defect_line defect_type description where
      r: "triple = (defect_line, defect_type, description)" by (cases triple) auto
    obtain row where "write_to_csv csvfile (rstrip_underscore module_prefix)
           (module_prefix @ str_int k @ ''.v'') defect_line defect_type description
           = appended csvfile [row]" "row_file_name row = Some (module_prefix @ str_int k @ ''.v'')"
      using write_to_csv_appended by blast
    then have "process_module e module_prefix base_path k csvfile = (appended csvfile [row], None)
          \<and> row_file_name row = Some (module_prefix @ str_int k @ ''.v'')"
      using a Inr r by (simp add: process_module_def)
    then show ?thesis by blast
  qed
qed

lemma batch_file_names_step:
  "start_idx < end_idx \<Longrightarrow>
     batch_file_names start_idx end_idx module_prefix =
       (module_prefix @ str_int start_idx @ ''.v'') #
       batch_file_names (start_idx + 1) end_idx module_prefix"
  by (simp add: batch_file_names_def upto_rec1)

lemma batch_file_names_done:
  "\<not> start_idx < end_idx \<Longrightarrow> batch_file_names start_idx end_idx module_prefix = []"
  by (simp add: batch_file_names_def)

text \<open>The loop over the indices: one row per module, in the order of the indices; when
  an exception leaves the loop, the rows of the modules before it.\<close>

lemma process_module_batch_rows:
  "\<exists>rows. fst (process_module_batch e start_idx end_idx module_prefix base_path csvfile)
             = appended csvfile rows
      \<and> (case snd (process_module_batch e start_idx end_idx module_prefix base_path csvfile) of
            None \<Rightarrow> map row_file_name rows
                      = map Some (batch_file_names start_idx end_idx module_prefix)
          | Some exc \<Rightarrow> length rows < length (batch_file_names start_idx end_idx module_prefix)
                      \<and> map row_file_name rows
                          = map Some (take (length rows)
                                        (batch_file_names start_idx end_idx module_prefix)))"
proof (induction e start_idx end_idx module_prefix base_path csvfile
        rule: process_module_batch.induct)
  case (1 e start_idx end_idx module_prefix base_path csvfile)
  let ?names = "batch_file_names start_idx end_idx module_prefix"
  show ?case
  proof (cases "start_idx < end_idx")
    case False
    then have "process_module_batch e start_idx end_idx module_prefix base_path csvfile
                = (csvfile, None)"
      by (subst process_module_batch.simps) simp
    then show ?thesis using False
      by (intro exI [of _ "[]"]) (simp add: appended_Nil batch_file_names_done)
  next
    case True
    note names = batch_file_names_step [OF True, of module_prefix]
    consider (ok) row where
        "process_module e module_prefix base_path start_idx csvfile = (appended csvfile [row], None)"
        "row_file_name row = Some (module_prefix @ str_int start_idx @ ''.v'')"
      | (raised) exc where
        "process_module e module_prefix base_path start_idx csvfile = (csvfile, Some exc)"
      using process_module_cases by blast
    then show ?thesis
    proof cases
      case raised
      then have "process_module_batch e start_idx end_idx module_prefix base_path csvfile
                = (csvfile, Some exc)"
        using True by (subst process_module_batch.simps) simp
      then show ?thesis
        by (intro exI [of _ "[]"]) (simp add: appended_Nil names)
    next
      case ok
      let ?next = "process_module_batch e (start_idx + 1) end_idx module_prefix base_path
                     (appended csvfile [row])"
      have step: "process_module_batch e start_idx end_idx module_prefix base_path csvfile = ?next"
        using True ok(1) by (subst process_module_batch.simps) simp
      from "1.IH" [OF True ok(1) [symmetric] refl]
      obtain rows where rows: "fst ?next = appended (appended csvfile [row]) rows"
        and c: "case snd ?next of
            None \<Rightarrow> map row_file_name rows
                      = map Some (batch_file_names (start_idx + 1) end_idx module_prefix)
          | Some exc \<Rightarrow> length rows < length (batch_file_names (start_idx + 1) end_idx module_prefix)
                      \<and> map row_file_name rows
                          = map Some (take (length rows)
                                        (batch_file_names (start_idx + 1) end_idx module_prefix))"
        by blast
      show ?thesis
        unfolding step
        using rows c ok(2)
        by (intro exI [of _ "row # rows"])
           (auto simp: appended_appended names split: option.splits)
    qed
  qed
qed

section \<open>A module whose file is missing\<close>

text \<open>
  C8. For every module whose source file does not exist, the pass of the loop appends
  exactly one row \<open>(level, file.v, "N/A", "ERROR", "File not found: path")\<close> to the report
  (behind the header, which is written first when the report does not exist yet); the
  defect line of the record is absent and the column holds \<open>N/A\<close>. No exception is raised,
  and the run proceeds to the next module: the loop from \<open>k\<close> on is the loop from \<open>k + 1\<close>
  on, started with the report that holds the row; the report it leaves holds the rows
  that were there, then this row, then one row for each of the modules \<open>k + 1\<close>, \<open>k + 2\<close>,
  ... in their order (up to the module at which an exception leaves the loop, if there
  is one); and when \<open>k\<close> is the last index, the loop ends with the row as the last of the
  report.
\<close>

theorem missing_file_row:
  assumes "\<not> path_exists e (build_verilog_path base_path (module_prefix @ str_int k))"
  shows "process_module e module_prefix base_path k csvfile =
           (Some ((case csvfile of None \<Rightarrow> [Header fieldnames] | Some rows \<Rightarrow> rows) @
                  [Row (rstrip_underscore module_prefix) (module_prefix @ str_int k @ ''.v'')
                     ''N/A'' ''ERROR''
                     (JStr (''File not found: '' @
                            build_verilog_path base_path (module_prefix @ str_int k)))]),
            None)
         \<and> (k < end_idx \<longrightarrow>
              process_module_batch e k end_idx module_prefix base_path csvfile =
              process_module_batch e (k + 1) end_idx module_prefix base_path
                (Some ((case csvfile of None \<Rightarrow> [Header fieldnames] | Some rows \<Rightarrow> rows) @
                  [Row (rstrip_underscore module_prefix) (module_prefix @ str_int k @ ''.v'')
                     ''N/A'' ''ERROR''
                     (JStr (''File not found: '' @
                            build_verilog_path base_path (module_prefix @ str_int k)))])))
         \<and> (k < end_idx \<longrightarrow>
              (\<exists>rows.
                 fst (process_module_batch e k end_idx module_prefix base_path csvfile) =
                   Some ((case csvfile of None \<Rightarrow> [Header fieldnames] | Some rows \<Rightarrow> rows) @
                     [Row (rstrip_underscore module_prefix) (module_prefix @ str_int k @ ''.v'')
                        ''N/A'' ''ERROR''
                        (JStr (''File not found: '' @
                               build_verilog_path base_path (module_prefix @ str_int k)))] @
                     rows)
                 \<and> (case snd (process_module_batch e k end_idx module_prefix base_path csvfile) of
                       None \<Rightarrow>
                         map row_file_name rows =
                           map Some (batch_file_names (k + 1) end_idx module_prefix)
                     | Some exc \<Rightarrow>
                         length rows < length (batch_file_names (k + 1) end_idx module_prefix)
                         \<and> map row_file_name rows =
                             map Some (take (length rows)
                                         (batch_file_names (k + 1) end_idx module_prefix)))))
         \<and> (k + 1 = end_idx \<longrightarrow>
              process_module_batch e k end_idx module_prefix base_path csvfile =
                (Some ((case csvfile of None \<Rightarrow> [Header fieldnames] | Some rows \<Rightarrow> rows) @
                  [Row (rstrip_underscore module_prefix) (module_prefix @ str_int k @ ''.v'')
                     ''N/A'' ''ERROR''
                     (JStr (''File not found: '' @
                            build_verilog_path base_path (module_prefix @ str_int k)))]),
                 None))"
proof -
  let ?old = "case csvfile of None \<Rightarrow> [Header fieldnames] | Some rows \<Rightarrow> rows"
  let ?row = "Row (rstrip_underscore module_prefix) (module_prefix @ str_int k @ ''.v'')
                     ''N/A'' ''ERROR''
                     (JStr (''File not found: '' @
                            build_verilog_path base_path (module_prefix @ str_int k)))"
  let ?next = "process_module_batch e (k + 1) end_idx module_prefix base_path
                 (Some (?old @ [?row]))"
  have "analyze_verilog_module e (module_prefix @ str_int k) base_path =
      Inr (error_value (''File not found: '' @ build_verilog_path base_path (module_prefix @ str_int k)))"
    using assms by (rule analyze_verilog_module_missing)
  then have p: "process_module e module_prefix base_path k csvfile = (Some (?old @ [?row]), None)"
    unfolding process_module_error_value
    by (cases csvfile) (simp_all add: process_module_error_value write_to_csv_def)
  have step: "process_module_batch e k end_idx module_prefix base_path csvfile = ?next"
    if "k < end_idx"
    using that by (subst process_module_batch.simps) (simp add: p)
  have rows: "\<exists>rows.
      fst (process_module_batch e k end_idx module_prefix base_path csvfile) =
        Some (?old @ [?row] @ rows)
      \<and> (case snd (process_module_batch e k end_idx module_prefix base_path csvfile) of
            None \<Rightarrow>
              map row_file_name rows = map Some (batch_file_names (k + 1) end_idx module_prefix)
          | Some exc \<Rightarrow>
              length rows < length (batch_file_names (k + 1) end_idx module_prefix)
              \<and> map row_file_name rows =
                  map Some (take (length rows) (batch_file_names (k + 1) end_idx module_prefix)))"
    if lt: "k < end_idx"
  proof -
    obtain rows where f: "fst ?next = appended (Some (?old @ [?row])) rows"
      and c: "case snd ?next of
            None \<Rightarrow>
              map row_file_name rows = map Some (batch_file_names (k + 1) end_idx module_prefix)
          | Some exc \<Rightarrow>
              length rows < length (batch_file_names (k + 1) end_idx module_prefix)
              \<and> map row_file_name rows =
                  map Some (take (length rows) (batch_file_names (k + 1) end_idx module_prefix))"
      using process_module_batch_rows
              [of e "k + 1" end_idx module_prefix base_path "Some (?old @ [?row])"]
      by blast
    have "fst ?next = Some (?old @ [?row] @ rows)"
      unfolding f appended_Some by simp
    then show ?thesis
      unfolding step [OF lt] using c by blast
  qed
  have last: "process_module_batch e k end_idx module_prefix base_path csvfile =
                (Some (?old @ [?row]), None)"
    if "k + 1 = end_idx"
  proof -
    have "k < end_idx" using that by simp
    then have "process_module_batch e k end_idx module_prefix base_path csvfile = ?next"
      by (rule step)
    also have "?next = (Some (?old @ [?row]), None)"
      using that by (subst process_module_batch.simps) simp
    finally show ?thesis .
  qed
  show ?thesis
    using p step rows last by (intro conjI impI)
qed

theorem missing_file_row_witness:
  "\<not> path_exists no_files_env
       (build_verilog_path ''Static-Verilog-Analysis/Benchmark/simple'' (''simple_'' @ str_int 1))
   \<and> process_module no_files_env ''simple_'' ''Static-Verilog-Analysis/Benchmark/simple'' 1 None =
       (Some [Header fieldnames,
              Row ''simple'' ''simple_1.v'' ''N/A'' ''ERROR''
                (JStr ''File not found: Static-Verilog-Analysis/Benchmark/simple/simple_1.v'')],
        None)
   \<and> (1 :: int) < 3
   \<and> process_module_batch no_files_env 1 3 ''simple_''
         ''Static-Verilog-Analysis/Benchmark/simple'' None =
       process_module_batch no_files_env (1 + 1) 3 ''simple_''
         ''Static-Verilog-Analysis/Benchmark/simple''
         (Some [Header fieldnames,
              Row ''simple'' ''simple_1.v'' ''N/A'' ''ERROR''
                (JStr ''File not found: Static-Verilog-Analysis/Benchmark/simple/simple_1.v'')])
   \<and> (\<exists>rows.
         fst (process_module_batch no_files_env 1 3 ''simple_''
                ''Static-Verilog-Analysis/Benchmark/simple'' None) =
           Some ([Header fieldnames] @
              [Row ''simple'' ''simple_1.v'' ''N/A'' ''ERROR''
                (JStr ''File not found: Static-Verilog-Analysis/Benchmark/simple/simple_1.v'')] @
              rows)
         \<and> map row_file_name rows = [Some ''simple_2.v''])
   \<and> process_module_batch no_files_env 1 3 ''simple_''
         ''Static-Verilog-Analysis/Benchmark/simple'' None =
       (Some [Header fieldnames,
              Row ''simple'' ''simple_1.v'' ''N/A'' ''ERROR''
                (JStr ''File not found: Static-Verilog-Analysis/Benchmark/simple/simple_1.v''),
              Row ''simple'' ''simple_2.v'' ''N/A'' ''ERROR''
                (JStr ''File not found: Static-Verilog-Analysis/Benchmark/simple/simple_2.v'')],
        None)
   \<and> (2 :: int) + 1 = 3
   \<and> process_module_batch no_files_env 2 3 ''simple_''
         ''Static-Verilog-Analysis/Benchmark/simple'' None =
       (Some [Header fieldnames,
              Row ''simple'' ''simple_2.v'' ''N/A'' ''ERROR''
                (JStr ''File not found: Static-Verilog-Analysis/Benchmark/simple/simple_2.v'')],
        None)"
proof -
  let ?b = "''Static-Verilog-Analysis/Benchmark/simple''"
  have h: "\<not> path_exists no_files_env (build_verilog_path ?b (''simple_'' @ str_int 1))"
    by (simp add: no_files_env_def)
  have h2: "\<not> path_exists no_files_env (build_verilog_path ?b (''simple_'' @ str_int 2))"
    by (simp add: no_files_env_def)
  have s1: "str_int 1 = ''1''" by code_simp
  have s2: "str_int 2 = ''2''" by code_simp
  have rs: "rstrip_underscore ''simple_'' = ''simple''" by code_simp
  have bp: "build_verilog_path ?b (''simple_'' @ ''1'') =
      ''Static-Verilog-Analysis/Benchmark/simple/simple_1.v''" by code_simp
  have bp2: "build_verilog_path ?b (''simple_'' @ ''2'') =
      ''Static-Verilog-Analysis/Benchmark/simple/simple_2.v''" by code_simp
  have names: "batch_file_names (1 + 1) 3 ''simple_'' = [''simple_2.v'']" by code_simp
  have all: "process_module_batch no_files_env 1 3 ''simple_'' ?b None =
       (Some [Header fieldnames,
              Row ''simple'' ''simple_1.v'' ''N/A'' ''ERROR''
                (JStr ''File not found: Static-Verilog-Analysis/Benchmark/simple/simple_1.v''),
              Row ''simple'' ''simple_2.v'' ''N/A'' ''ERROR''
                (JStr ''File not found: Static-Verilog-Analysis/Benchmark/simple/simple_2.v'')],
        None)"
    by code_simp
  note t = missing_file_row [OF h, of None 3, unfolded s1 rs bp]
  note u = missing_file_row [OF h2, of None 3, unfolded s2 rs bp2]
  have r1: "process_module no_files_env ''simple_'' ?b 1 None =
       (Some [Header fieldnames,
              Row ''simple'' ''simple_1.v'' ''N/A'' ''ERROR''
                (JStr ''File not found: Static-Verilog-Analysis/Benchmark/simple/simple_1.v'')],
        None)"
    using t by simp
  have r2: "process_module_batch no_files_env 1 3 ''simple_'' ?b None =
       process_module_batch no_files_env (1 + 1) 3 ''simple_'' ?b
         (Some [Header fieldnames,
              Row ''simple'' ''simple_1.v'' ''N/A'' ''ERROR''
                (JStr ''File not found: Static-Verilog-Analysis/Benchmark/simple/simple_1.v'')])"
    using t by simp
  have lt: "(1 :: int) < 3" by simp
  have sn: "snd (process_module_batch no_files_env 1 3 ''simple_'' ?b None) = None"
    unfolding all by simp
  have r3: "\<exists>rows.
         fst (process_module_batch no_files_env 1 3 ''simple_'' ?b None) =
           Some ([Header fieldnames] @
              [Row ''simple'' ''simple_1.v'' ''N/A'' ''ERROR''
                (JStr ''File not found: Static-Verilog-Analysis/Benchmark/simple/simple_1.v'')] @
              rows)
         \<and> map row_file_name rows = [Some ''simple_2.v'']"
    using t [THEN conjunct2, THEN conjunct2, THEN conjunct1, rule_format, OF lt]
    by (simp only: sn names option.case list.map) simp
  have eq: "(2 :: int) + 1 = 3" by simp
  have r4: "process_module_batch no_files_env 2 3 ''simple_'' ?b None =
       (Some [Header fieldnames,
              Row ''simple'' ''simple_2.v'' ''N/A'' ''ERROR''
                (JStr ''File not found: Static-Verilog-Analysis/Benchmark/simple/simple_2.v'')],
        None)"
    using u [THEN conjunct2, THEN conjunct2, THEN conjunct2, rule_format, OF eq]
    by (simp only: option.case) simp
  show ?thesis using h r1 lt r2 r3 all eq r4 by (intro conjI)
qed

section \<open>The report of a run\<close>

lemma process_categories_rows:
  "\<exists>rows. fst (process_categories e cfg categories csvfile) = appended csvfile rows
      \<and> (case snd (process_categories e cfg categories csvfile) of
            None \<Rightarrow> map row_file_name rows
                      = map Some (concat (map (\<lambda>(module_prefix, folder).
                          batch_file_names (MODULE_START_INDEX cfg) (MODULE_END_INDEX cfg)
                            module_prefix) categories))
          | Some exc \<Rightarrow>
              length rows < length (concat (map (\<lambda>(module_prefix, folder).
                          batch_file_names (MODULE_START_INDEX cfg) (MODULE_END_INDEX cfg)
                            module_prefix) categories))
              \<and> map row_file_name rows
                  = map Some (take (length rows) (concat (map (\<lambda>(module_prefix, folder).
                          batch_file_names (MODULE_START_INDEX cfg) (MODULE_END_INDEX cfg)
                            module_prefix) categories))))"
proof (induction categories arbitrary: csvfile)
  case Nil
  show ?case by (intro exI [of _ "[]"]) (simp add: appended_Nil)
next
  case (Cons pf categories)
  obtain module_prefix folder where pf: "pf = (module_prefix, folder)" by (cases pf) auto
  let ?batch = "process_module_batch e (MODULE_START_INDEX cfg) (MODULE_END_INDEX cfg)
                  module_prefix (BASE_BENCHMARK_PATH cfg @ ''/'' @ folder) csvfile"
  let ?names1 = "batch_file_names (MODULE_START_INDEX cfg) (MODULE_END_INDEX cfg) module_prefix"
  let ?names2 = "concat (map (\<lambda>(module_prefix, folder).
                   batch_file_names (MODULE_START_INDEX cfg) (MODULE_END_INDEX cfg)
                     module_prefix) categories)"
  obtain rows1 where f1: "fst ?batch = appended csvfile rows1"
    and c1: "case snd ?batch of
            None \<Rightarrow> map row_file_name rows1 = map Some ?names1
          | Some exc \<Rightarrow> length rows1 < length ?names1
                      \<and> map row_file_name rows1 = map Some (take (length rows1) ?names1)"
    using process_module_batch_rows by blast
  show ?case
  proof (cases "snd ?batch")
    case (Some exc)
    then have "process_categories e cfg (pf # categories) csvfile = (fst ?batch, Some exc)"
      unfolding pf by (cases ?batch) simp
    then show ?thesis using f1 c1 Some unfolding pf
      by (intro exI [of _ rows1]) simp
  next
    case None
    then have step: "process_categories e cfg (pf # categories) csvfile
        = process_categories e cfg categories (appended csvfile rows1)"
      unfolding pf using f1 by (cases ?batch) simp
    have l1: "length rows1 = length ?names1"
      using c1 None by (simp, metis length_map)
    obtain rows2 where
      f2: "fst (process_categories e cfg categories (appended csvfile rows1))
             = appended (appended csvfile rows1) rows2"
      and c2: "case snd (process_categories e cfg categories (appended csvfile rows1)) of
            None \<Rightarrow> map row_file_name rows2 = map Some ?names2
          | Some exc \<Rightarrow> length rows2 < length ?names2
                      \<and> map row_file_name rows2 = map Some (take (length rows2) ?names2)"
      using Cons.IH by blast
    let ?rest = "process_categories e cfg categories (appended csvfile rows1)"
    have fst_eq: "fst (process_categories e cfg (pf # categories) csvfile)
        = appended csvfile (rows1 @ rows2)"
      unfolding step f2 by (rule appended_appended)
    have names: "concat (map (\<lambda>(module_prefix, folder).
                   batch_file_names (MODULE_START_INDEX cfg) (MODULE_END_INDEX cfg)
                     module_prefix) (pf # categories)) = ?names1 @ ?names2"
      by (simp add: pf)
    have m1: "map row_file_name rows1 = map Some ?names1" using c1 None by simp
    have "case snd ?rest of
            None \<Rightarrow> map row_file_name (rows1 @ rows2) = map Some (?names1 @ ?names2)
          | Some exc \<Rightarrow> length (rows1 @ rows2) < length (?names1 @ ?names2)
              \<and> map row_file_name (rows1 @ rows2)
                  = map Some (take (length (rows1 @ rows2)) (?names1 @ ?names2))"
      using c2 m1 l1 by (cases "snd ?rest") simp_all
    then show ?thesis
      unfolding names [symmetric] step [symmetric] using fst_eq by blast
  qed
qed

text \<open>
  A run writes the rows of the modules in the order of processing, one for each, into a
  report that starts anew; when an exception ends the run, the report holds the rows of
  the modules before it.
\<close>

lemma run_rows:
  "\<exists>rows. fst (run e cfg csvfile) = appended None rows
      \<and> (case snd (run e cfg csvfile) of
            None \<Rightarrow> map row_file_name rows = map Some (module_file_names cfg)
          | Some exc \<Rightarrow> length rows < length (module_file_names cfg)
              \<and> map row_file_name rows
                  = map Some (take (length rows) (module_file_names cfg)))"
proof -
  have "run e cfg csvfile =
      process_categories e cfg (zip (PROJECT_PREFIXES cfg) (FOLDER_NAMES cfg)) None"
    by (simp add: run_def)
  then show ?thesis
    unfolding module_file_names_def using process_categories_rows by simp
qed

lemma run_without_exception:
  assumes "snd (run e cfg csvfile) = None" and "module_file_names cfg \<noteq> []"
  shows "\<exists>rows. fst (run e cfg csvfile) = Some (Header fieldnames # rows)
           \<and> length rows = length (module_file_names cfg)
           \<and> map row_file_name rows = map Some (module_file_names cfg)"
proof -
  obtain rows where f: "fst (run e cfg csvfile) = appended None rows"
    and m: "map row_file_name rows = map Some (module_file_names cfg)"
    using run_rows [of e cfg csvfile] assms(1) by auto
  have l: "length rows = length (module_file_names cfg)" using m by (metis length_map)
  then have "rows \<noteq> []" using assms(2) by auto
  then show ?thesis using f m l by (auto simp: appended_def)
qed

lemma length_batch_file_names:
  "length (batch_file_names start_idx end_idx module_prefix) = nat (end_idx - start_idx)"
  by (simp add: batch_file_names_def)

lemma length_module_file_names_Config: "length (module_file_names Config) = 90"
  by (simp add: module_file_names_def Config_def length_batch_file_names length_concat)

text \<open>
  C5. A run over the N configured modules is to leave a report of one header row and N
  data rows, in the order of processing. \<open>run_rows\<close> and \<open>run_without_exception\<close> show
  that the run does so, whatever report existed before, as long as no exception leaves
  \<open>parse_llm_result\<close>. That function is not guarded as \<open>send_llm_request\<close> and
  \<open>analyze_verilog_module\<close> are: when the endpoint answers with the status 200 and a
  message whose content is \<open>null\<close>, the test \<open>"RESULT: [NO]" in content\<close> raises
  \<open>TypeError\<close>, the exception leaves \<open>process_module_batch\<close> and \<open>main\<close>, and the run over
  the 90 modules of \<open>Config\<close> ends at its first module without any report.
\<close>

theorem null_content_ends_the_run:
  "main null_content_env None = (None, Some (TypeError ''argument is not iterable''))
   \<and> main null_content_env
        (Some [Header fieldnames, Row ''simple'' ''simple_1.v'' ''N/A'' ''NONE'' (JStr [])])
       = (None, Some (TypeError ''argument is not iterable''))
   \<and> length (module_file_names Config) = 90"
proof -
  have 1: "main null_content_env None = (None, Some (TypeError ''argument is not iterable''))"
    by code_simp
  have 2: "main null_content_env
        (Some [Header fieldnames, Row ''simple'' ''simple_1.v'' ''N/A'' ''NONE'' (JStr [])])
       = (None, Some (TypeError ''argument is not iterable''))"
    by code_simp
  show ?thesis using 1 2 length_module_file_names_Config by (intro conjI)
qed

end
